theory Spec2Isabelle
  imports Main "HOL-Library.Word"
begin

section \<open>The queue module \<^verbatim>\<open>src/util/src/tqueue.c\<close>\<close>

text \<open>
  The module keeps three kinds of heap objects that point at each other: queue nodes
  (\<^verbatim>\<open>STaosQnode\<close>), queues (\<^verbatim>\<open>STaosQueue\<close>) and queue sets (\<^verbatim>\<open>STaosQset\<close>), plus the
  batch view \<^verbatim>\<open>STaosQall\<close> handed out by the drain operations. The embedding keeps the
  pointers: every struct type has its own store, a partial map from addresses to records,
  \<^verbatim>\<open>NULL\<close> is \<open>None\<close>, \<^verbatim>\<open>free\<close> removes the address from the store, and dereferencing an
  address that is not in the store is the outcome \<open>Fault\<close>.

  The functions are modelled as they run on one thread: the mutex calls are dropped and
  the atomic add and subtract are plain updates of the set's item counter.
  \<^verbatim>\<open>int32_t\<close> fields are 32-bit words, read as signed numbers with \<open>sint\<close>.
\<close>

subsection \<open>Data\<close>

type_synonym addr = nat
type_synonym byte = "8 word"
type_synonym int32_t = "32 word"

record STaosQnode =
  node_next :: "addr option"
  node_item :: "byte list"

record STaosQueue =
  queue_itemSize :: int32_t
  queue_numOfItems :: int32_t
  queue_head :: "addr option"
  queue_tail :: "addr option"
  queue_next :: "addr option"
  queue_qset :: "addr option"

record STaosQset =
  qset_head :: "addr option"
  qset_current :: "addr option"
  qset_numOfQueues :: int32_t
  qset_numOfItems :: int32_t

record STaosQall =
  qall_current :: "addr option"
  qall_start :: "addr option"
  qall_itemSize :: int32_t
  qall_numOfItems :: int32_t

text \<open>
  \<^verbatim>\<open>terrno\<close> is the global error variable. The numeric values of the codes are in
  \<^verbatim>\<open>taoserror.h\<close>, which is not part of the sources at hand, so they stay symbolic.
\<close>

datatype errcode = TSDB_CODE_SUCCESS | TSDB_CODE_NO_RESOURCE

record heap =
  nodes :: "addr \<rightharpoonup> STaosQnode"
  queues :: "addr \<rightharpoonup> STaosQueue"
  qsets :: "addr \<rightharpoonup> STaosQset"
  qalls :: "addr \<rightharpoonup> STaosQall"
  terrno :: errcode

text \<open>
  What a call does: it returns, it dereferences a dangling or null pointer or copies
  outside a buffer (\<open>Fault\<close>), or its loop is still running when the fuel is used up.
\<close>

datatype 'a outcome = Return 'a | Fault | OutOfFuel

definition empty_heap :: heap where
  "empty_heap = \<lparr>nodes = Map.empty, queues = Map.empty, qsets = Map.empty,
                 qalls = Map.empty, terrno = TSDB_CODE_SUCCESS\<rparr>"

subsection \<open>Library calls\<close>

text \<open>
  \<^verbatim>\<open>memcpy(dst, src, n)\<close> overwrites the first \<open>n\<close> bytes of \<open>dst\<close> with those of \<open>src\<close>.
  Both buffers must hold \<open>n\<close> bytes, and a negative \<^verbatim>\<open>int32_t\<close> size converts to a huge
  \<^verbatim>\<open>size_t\<close>: both are faults.
\<close>

definition memcpy :: "byte list \<Rightarrow> byte list \<Rightarrow> int \<Rightarrow> byte list option" where
  "memcpy dst src n =
     (if 0 \<le> n \<and> nat n \<le> length src \<and> nat n \<le> length dst
      then Some (take (nat n) src @ drop (nat n) dst) else None)"

text \<open>The two atomics are only ever applied to \<^verbatim>\<open>&qset->numOfItems\<close>.\<close>

definition atomic_add_fetch_32 :: "heap \<Rightarrow> addr \<Rightarrow> int32_t \<Rightarrow> heap option" where
  "atomic_add_fetch_32 h qset v =
     (case qsets h qset of
        None \<Rightarrow> None
      | Some s \<Rightarrow> Some (h\<lparr>qsets := (qsets h)(qset \<mapsto> s\<lparr>qset_numOfItems := qset_numOfItems s + v\<rparr>)\<rparr>))"

definition atomic_sub_fetch_32 :: "heap \<Rightarrow> addr \<Rightarrow> int32_t \<Rightarrow> heap option" where
  "atomic_sub_fetch_32 h qset v =
     (case qsets h qset of
        None \<Rightarrow> None
      | Some s \<Rightarrow> Some (h\<lparr>qsets := (qsets h)(qset \<mapsto> s\<lparr>qset_numOfItems := qset_numOfItems s - v\<rparr>)\<rparr>))"

subsection \<open>Queues\<close>

text \<open>
  Every function that calls \<^verbatim>\<open>calloc\<close> takes the result of that call as the argument
  \<open>alloc\<close>: \<open>None\<close> when the allocation fails, otherwise the address of the new object.
\<close>

definition taosOpenQueue :: "heap \<Rightarrow> int32_t \<Rightarrow> addr option \<Rightarrow> heap \<times> addr option" where
  "taosOpenQueue h itemSize alloc =
     (case alloc of
        None \<Rightarrow> (h\<lparr>terrno := TSDB_CODE_NO_RESOURCE\<rparr>, None)
      | Some queue \<Rightarrow>
          (h\<lparr>queues := (queues h)(queue \<mapsto>
                \<lparr>queue_itemSize = itemSize, queue_numOfItems = 0, queue_head = None,
                 queue_tail = None, queue_next = None, queue_qset = None\<rparr>)\<rparr>,
           Some queue))"

definition taosWriteQitem ::
  "heap \<Rightarrow> addr \<Rightarrow> byte list \<Rightarrow> addr option \<Rightarrow> (heap \<times> int) outcome" where
  "taosWriteQitem h queue item alloc =
     (case queues h queue of
        None \<Rightarrow> Fault
      | Some q \<Rightarrow>
     (case alloc of
        None \<Rightarrow> Return (h\<lparr>terrno := TSDB_CODE_NO_RESOURCE\<rparr>, - 1)
      | Some pNode \<Rightarrow>
     (case memcpy (replicate (nat (sint (queue_itemSize q))) 0) item (sint (queue_itemSize q)) of
        None \<Rightarrow> Fault
      | Some bytes \<Rightarrow>
          let h1 = h\<lparr>nodes := (nodes h)(pNode \<mapsto> \<lparr>node_next = None, node_item = bytes\<rparr>)\<rparr> in
     (case (case queue_tail q of
              Some t \<Rightarrow>
                (case nodes h1 t of
                   None \<Rightarrow> None
                 | Some tn \<Rightarrow>
                     Some (h1\<lparr>nodes := (nodes h1)(t \<mapsto> tn\<lparr>node_next := Some pNode\<rparr>)\<rparr>,
                           q\<lparr>queue_tail := Some pNode\<rparr>))
            | None \<Rightarrow> Some (h1, q\<lparr>queue_head := Some pNode, queue_tail := Some pNode\<rparr>)) of
        None \<Rightarrow> Fault
      | Some (h2, q2) \<Rightarrow>
          let h3 = h2\<lparr>queues := (queues h2)(queue \<mapsto>
                        q2\<lparr>queue_numOfItems := queue_numOfItems q2 + 1\<rparr>)\<rparr> in
     (case queue_qset q2 of
        None \<Rightarrow> Return (h3, 0)
      | Some qset \<Rightarrow>
          (case atomic_add_fetch_32 h3 qset 1 of
             None \<Rightarrow> Fault
           | Some h4 \<Rightarrow> Return (h4, 0)))))))"

text \<open>
  The reading functions take the caller's buffer \<open>item\<close> and return it as it is after
  the call, next to the return code.
\<close>

definition taosReadQitem ::
  "heap \<Rightarrow> addr \<Rightarrow> byte list \<Rightarrow> (heap \<times> byte list \<times> int) outcome" where
  "taosReadQitem h queue item =
     (case queues h queue of
        None \<Rightarrow> Fault
      | Some q \<Rightarrow>
     (case queue_head q of
        None \<Rightarrow> Return (h, item, 0)
      | Some pNode \<Rightarrow>
     (case nodes h pNode of
        None \<Rightarrow> Fault
      | Some n \<Rightarrow>
     (case memcpy item (node_item n) (sint (queue_itemSize q)) of
        None \<Rightarrow> Fault
      | Some item' \<Rightarrow>
          let q1 = q\<lparr>queue_head := node_next n\<rparr>;
              q2 = (if queue_head q1 = None then q1\<lparr>queue_tail := None\<rparr> else q1);
              h1 = h\<lparr>nodes := (nodes h)(pNode := None)\<rparr>;
              q3 = q2\<lparr>queue_numOfItems := queue_numOfItems q2 - 1\<rparr>;
              h2 = h1\<lparr>queues := (queues h1)(queue \<mapsto> q3)\<rparr> in
     (case queue_qset q3 of
        None \<Rightarrow> Return (h2, item', 1)
      | Some qset \<Rightarrow>
          (case atomic_sub_fetch_32 h2 qset 1 of
             None \<Rightarrow> Fault
           | Some h3 \<Rightarrow> Return (h3, item', 1)))))))"

definition taosReadAllQitems ::
  "heap \<Rightarrow> addr \<Rightarrow> addr option \<Rightarrow> (heap \<times> addr option \<times> int) outcome" where
  "taosReadAllQitems h queue alloc =
     (case queues h queue of
        None \<Rightarrow> Fault
      | Some q \<Rightarrow>
     (case queue_head q of
        None \<Rightarrow> Return (h, None, 0)
      | Some _ \<Rightarrow>
     (case alloc of
        None \<Rightarrow> Return (h\<lparr>terrno := TSDB_CODE_NO_RESOURCE\<rparr>, None, - 1)
      | Some qall \<Rightarrow>
          let a = \<lparr>qall_current = queue_head q, qall_start = queue_head q,
                   qall_itemSize = queue_itemSize q, qall_numOfItems = queue_numOfItems q\<rparr>;
              h1 = h\<lparr>qalls := (qalls h)(qall \<mapsto> a)\<rparr>;
              code = sint (qall_numOfItems a);
              q1 = q\<lparr>queue_head := None, queue_tail := None, queue_numOfItems := 0\<rparr>;
              h2 = h1\<lparr>queues := (queues h1)(queue \<mapsto> q1)\<rparr> in
     (case queue_qset q1 of
        None \<Rightarrow> Return (h2, Some qall, code)
      | Some qset \<Rightarrow>
          (case atomic_sub_fetch_32 h2 qset (qall_numOfItems a) of
             None \<Rightarrow> Fault
           | Some h3 \<Rightarrow> Return (h3, Some qall, code))))))"

subsection \<open>Batch views\<close>

definition taosGetQitem ::
  "heap \<Rightarrow> addr \<Rightarrow> byte list \<Rightarrow> (heap \<times> byte list \<times> int) outcome" where
  "taosGetQitem h qall item =
     (case qalls h qall of
        None \<Rightarrow> Fault
      | Some a \<Rightarrow>
     (case qall_current a of
        None \<Rightarrow> Return (h, item, 0)
      | Some pNode \<Rightarrow>
     (case nodes h pNode of
        None \<Rightarrow> Fault
      | Some n \<Rightarrow>
          let h1 = h\<lparr>qalls := (qalls h)(qall \<mapsto> a\<lparr>qall_current := node_next n\<rparr>)\<rparr> in
     (case memcpy item (node_item n) (sint (qall_itemSize a)) of
        None \<Rightarrow> Fault
      | Some item' \<Rightarrow> Return (h1, item', 1)))))"


subsection \<open>Queue sets\<close>

definition taosOpenQset :: "heap \<Rightarrow> addr option \<Rightarrow> heap \<times> addr option" where
  "taosOpenQset h alloc =
     (case alloc of
        None \<Rightarrow> (h\<lparr>terrno := TSDB_CODE_NO_RESOURCE\<rparr>, None)
      | Some qset \<Rightarrow>
          (h\<lparr>qsets := (qsets h)(qset \<mapsto>
                \<lparr>qset_head = None, qset_current = None, qset_numOfQueues = 0,
                 qset_numOfItems = 0\<rparr>)\<rparr>,
           Some qset))"

definition taosAddIntoQset :: "heap \<Rightarrow> addr \<Rightarrow> addr \<Rightarrow> (heap \<times> int) outcome" where
  "taosAddIntoQset h qset queue =
     (case queues h queue of
        None \<Rightarrow> Fault
      | Some q \<Rightarrow>
          if queue_qset q \<noteq> None then Return (h, - 1)
          else
     (case qsets h qset of
        None \<Rightarrow> Fault
      | Some s \<Rightarrow>
          let q1 = q\<lparr>queue_next := qset_head s\<rparr>;
              s1 = s\<lparr>qset_head := Some queue, qset_numOfQueues := qset_numOfQueues s + 1\<rparr>;
              s2 = s1\<lparr>qset_numOfItems := qset_numOfItems s1 + queue_numOfItems q1\<rparr>;
              q2 = q1\<lparr>queue_qset := Some qset\<rparr>
          in Return (h\<lparr>queues := (queues h)(queue \<mapsto> q2),
                       qsets := (qsets h)(qset \<mapsto> s2)\<rparr>, 0)))"

text \<open>
  The scan of \<^verbatim>\<open>taosRemoveFromQset\<close> below the head. Each statement of the matching
  branch reads the heap as the statement before left it. That branch changes neither
  \<^verbatim>\<open>tqueue\<close> nor leaves the loop, so the next round starts with the same \<^verbatim>\<open>tqueue\<close>.
  The fuel bounds the number of rounds.
\<close>

fun remove_scan ::
  "nat \<Rightarrow> heap \<Rightarrow> addr \<Rightarrow> addr \<Rightarrow> addr \<Rightarrow> addr option \<Rightarrow> heap outcome" where
  "remove_scan fuel h qset queue prev None = Return h"
| "remove_scan 0 h qset queue prev (Some tqueue) = OutOfFuel"
| "remove_scan (Suc fuel) h qset queue prev (Some tqueue) =
     (if tqueue = queue then
        (case (queues h prev, queues h tqueue) of
           (Some pq, Some tq) \<Rightarrow>
             let h1 = h\<lparr>queues := (queues h)(prev \<mapsto> pq\<lparr>queue_next := queue_next tq\<rparr>)\<rparr> in
             (case (qsets h1 qset, queues h1 tqueue) of
                (Some s, Some tq1) \<Rightarrow>
                  let s1 = (if qset_current s = Some queue
                            then s\<lparr>qset_current := queue_next tq1\<rparr> else s);
                      s2 = s1\<lparr>qset_numOfQueues := qset_numOfQueues s1 - 1\<rparr>;
                      h2 = h1\<lparr>qsets := (qsets h1)(qset \<mapsto> s2)\<rparr> in
                  (case queues h2 queue of
                     Some q \<Rightarrow>
                       (case atomic_sub_fetch_32 h2 qset (queue_numOfItems q) of
                          Some h3 \<Rightarrow>
                            (case queues h3 queue of
                               Some q3 \<Rightarrow>
                                 remove_scan fuel
                                   (h3\<lparr>queues := (queues h3)(queue \<mapsto> q3\<lparr>queue_qset := None\<rparr>)\<rparr>)
                                   qset queue prev (Some tqueue)
                             | None \<Rightarrow> Fault)
                        | None \<Rightarrow> Fault)
                   | None \<Rightarrow> Fault)
              | _ \<Rightarrow> Fault)
         | _ \<Rightarrow> Fault)
      else
        (case queues h tqueue of
           None \<Rightarrow> Fault
         | Some tq \<Rightarrow> remove_scan fuel h qset queue tqueue (queue_next tq)))"

definition taosRemoveFromQset :: "nat \<Rightarrow> heap \<Rightarrow> addr \<Rightarrow> addr \<Rightarrow> heap outcome" where
  "taosRemoveFromQset fuel h qset queue =
     (case qsets h qset of
        None \<Rightarrow> Fault
      | Some s \<Rightarrow>
     (case qset_head s of
        None \<Rightarrow> Return h
      | Some first \<Rightarrow>
     (case queues h first of
        None \<Rightarrow> Fault
      | Some hq \<Rightarrow>
          if first = queue then
            Return (h\<lparr>qsets := (qsets h)(qset \<mapsto>
                      s\<lparr>qset_head := queue_next hq,
                        qset_numOfQueues := qset_numOfQueues s - 1\<rparr>)\<rparr>)
          else remove_scan fuel h qset queue first (queue_next hq))))"

definition taosGetQueueNumber :: "heap \<Rightarrow> addr \<Rightarrow> int outcome" where
  "taosGetQueueNumber h qset =
     (case qsets h qset of None \<Rightarrow> Fault | Some s \<Rightarrow> Return (sint (qset_numOfQueues s)))"

definition taosGetQueueItemsNumber :: "heap \<Rightarrow> addr \<Rightarrow> int outcome" where
  "taosGetQueueItemsNumber h queue =
     (case queues h queue of None \<Rightarrow> Fault | Some q \<Rightarrow> Return (sint (queue_numOfItems q)))"

definition taosGetQsetItemsNumber :: "heap \<Rightarrow> addr \<Rightarrow> int outcome" where
  "taosGetQsetItemsNumber h qset =
     (case qsets h qset of None \<Rightarrow> Fault | Some s \<Rightarrow> Return (sint (qset_numOfItems s)))"

text \<open>
  The loop of \<^verbatim>\<open>taosReadQitemFromQset\<close>, entered with the loop counter \<open>i\<close>. The list
  \<open>visited\<close> is not in the source: it records the value of the local variable
  \<^verbatim>\<open>queue\<close> in every round that got past the \<^verbatim>\<open>NULL\<close> test, in order, so that the
  statements about the scan have something to talk about. Nothing is computed from it.
\<close>

function readQitemFromQset_loop ::
  "heap \<Rightarrow> addr \<Rightarrow> byte list \<Rightarrow> int \<Rightarrow> addr list \<Rightarrow>
     (heap \<times> byte list \<times> int \<times> addr list) outcome" where
  "readQitemFromQset_loop h qset item i visited =
     (case qsets h qset of
        None \<Rightarrow> Fault
      | Some s \<Rightarrow>
          if i < sint (qset_numOfQueues s) then
            let s1 = (if qset_current s = None then s\<lparr>qset_current := qset_head s\<rparr> else s) in
     (case qset_current s1 of
        None \<Rightarrow> Return (h\<lparr>qsets := (qsets h)(qset \<mapsto> s1)\<rparr>, item, 0, visited)
      | Some queue \<Rightarrow>
     (case queues h queue of
        None \<Rightarrow> Fault
      | Some q \<Rightarrow>
          let h1 = h\<lparr>qsets := (qsets h)(qset \<mapsto> s1\<lparr>qset_current := queue_next q\<rparr>)\<rparr> in
     (case queue_head q of
        None \<Rightarrow> readQitemFromQset_loop h1 qset item (i + 1) (visited @ [queue])
      | Some pNode \<Rightarrow>
     (case nodes h1 pNode of
        None \<Rightarrow> Fault
      | Some n \<Rightarrow>
     (case memcpy item (node_item n) (sint (queue_itemSize q)) of
        None \<Rightarrow> Fault
      | Some item' \<Rightarrow>
          let q1 = q\<lparr>queue_head := node_next n\<rparr>;
              q2 = (if queue_head q1 = None then q1\<lparr>queue_tail := None\<rparr> else q1);
              h2 = h1\<lparr>nodes := (nodes h1)(pNode := None)\<rparr>;
              q3 = q2\<lparr>queue_numOfItems := queue_numOfItems q2 - 1\<rparr>;
              h3 = h2\<lparr>queues := (queues h2)(queue \<mapsto> q3)\<rparr> in
     (case atomic_sub_fetch_32 h3 qset 1 of
        None \<Rightarrow> Fault
      | Some h4 \<Rightarrow> Return (h4, item', 1, visited @ [queue])))))))
          else Return (h, item, 0, visited))"
  by pat_completeness auto
termination
  by (relation "measure (\<lambda>(h, qset, item, i, visited).
        case qsets h qset of None \<Rightarrow> 0 | Some s \<Rightarrow> nat (sint (qset_numOfQueues s) - i))")
     (auto split: if_splits)

definition taosReadQitemFromQset ::
  "heap \<Rightarrow> addr \<Rightarrow> byte list \<Rightarrow> (heap \<times> byte list \<times> int \<times> addr list) outcome" where
  "taosReadQitemFromQset h qset item = readQitemFromQset_loop h qset item 0 []"

text \<open>
  The loop of \<^verbatim>\<open>taosReadAllQitemsFromQset\<close>. \<open>alloc i\<close> is what \<^verbatim>\<open>calloc\<close> returns if it is
  called in round \<open>i\<close>; \<open>qall\<close> is the local variable of that name, which keeps its value
  from an earlier round when a round leaves \<^verbatim>\<open>code\<close> at 0.
\<close>

function readAllQitemsFromQset_loop ::
  "heap \<Rightarrow> addr \<Rightarrow> (int \<Rightarrow> addr option) \<Rightarrow> int \<Rightarrow> addr option \<Rightarrow>
     (heap \<times> addr option \<times> int) outcome" where
  "readAllQitemsFromQset_loop h qset alloc i qall =
     (case qsets h qset of
        None \<Rightarrow> Fault
      | Some s \<Rightarrow>
          if i < sint (qset_numOfQueues s) then
            let s1 = (if qset_current s = None then s\<lparr>qset_current := qset_head s\<rparr> else s) in
     (case qset_current s1 of
        None \<Rightarrow> Return (h\<lparr>qsets := (qsets h)(qset \<mapsto> s1)\<rparr>, qall, 0)
      | Some queue \<Rightarrow>
     (case queues h queue of
        None \<Rightarrow> Fault
      | Some q \<Rightarrow>
          let h1 = h\<lparr>qsets := (qsets h)(qset \<mapsto> s1\<lparr>qset_current := queue_next q\<rparr>)\<rparr> in
     (case queue_head q of
        None \<Rightarrow> readAllQitemsFromQset_loop h1 qset alloc (i + 1) qall
      | Some _ \<Rightarrow>
     (case alloc i of
        None \<Rightarrow> Return (h1\<lparr>terrno := TSDB_CODE_NO_RESOURCE\<rparr>, None, - 1)
      | Some new \<Rightarrow>
          let a = \<lparr>qall_current = queue_head q, qall_start = queue_head q,
                   qall_itemSize = queue_itemSize q, qall_numOfItems = queue_numOfItems q\<rparr>;
              h2 = h1\<lparr>qalls := (qalls h1)(new \<mapsto> a)\<rparr>;
              code = sint (qall_numOfItems a);
              q1 = q\<lparr>queue_head := None, queue_tail := None, queue_numOfItems := 0\<rparr>;
              h3 = h2\<lparr>queues := (queues h2)(queue \<mapsto> q1)\<rparr> in
     (case atomic_sub_fetch_32 h3 qset (qall_numOfItems a) of
        None \<Rightarrow> Fault
      | Some h4 \<Rightarrow>
          if code \<noteq> 0 then Return (h4, Some new, code)
          else readAllQitemsFromQset_loop h4 qset alloc (i + 1) (Some new))))))
          else Return (h, qall, 0))"
  by pat_completeness auto
termination
  by (relation "measure (\<lambda>(h, qset, alloc, i, qall).
        case qsets h qset of None \<Rightarrow> 0 | Some s \<Rightarrow> nat (sint (qset_numOfQueues s) - i))")
     (auto simp: atomic_sub_fetch_32_def split: if_splits)

definition taosReadAllQitemsFromQset ::
  "heap \<Rightarrow> addr \<Rightarrow> (int \<Rightarrow> addr option) \<Rightarrow> (heap \<times> addr option \<times> int) outcome" where
  "taosReadAllQitemsFromQset h qset alloc = readAllQitemsFromQset_loop h qset alloc 0 None"

subsection \<open>Closing a queue\<close>

text \<open>The \<^verbatim>\<open>while (pNode)\<close> loop of \<^verbatim>\<open>taosCloseQueue\<close>, which frees a chain of nodes.\<close>

fun free_nodes :: "nat \<Rightarrow> heap \<Rightarrow> addr option \<Rightarrow> heap outcome" where
  "free_nodes fuel h None = Return h"
| "free_nodes 0 h (Some pNode) = OutOfFuel"
| "free_nodes (Suc fuel) h (Some pNode) =
     (case nodes h pNode of
        None \<Rightarrow> Fault
      | Some n \<Rightarrow> free_nodes fuel (h\<lparr>nodes := (nodes h)(pNode := None)\<rparr>) (node_next n))"

definition taosCloseQueue :: "nat \<Rightarrow> heap \<Rightarrow> addr \<Rightarrow> heap outcome" where
  "taosCloseQueue fuel h queue =
     (case queues h queue of
        None \<Rightarrow> Fault
      | Some q \<Rightarrow>
          let pNode = queue_head q;
              q1 = q\<lparr>queue_head := None\<rparr>;
              h1 = h\<lparr>queues := (queues h)(queue \<mapsto> q1)\<rparr> in
     (case (case queue_qset q1 of
              None \<Rightarrow> Return h1
            | Some qset \<Rightarrow> taosRemoveFromQset fuel h1 qset queue) of
        Return h2 \<Rightarrow>
          (case free_nodes fuel h2 pNode of
             Return h3 \<Rightarrow> Return (h3\<lparr>queues := (queues h3)(queue := None)\<rparr>)
           | Fault \<Rightarrow> Fault
           | OutOfFuel \<Rightarrow> OutOfFuel)
      | Fault \<Rightarrow> Fault
      | OutOfFuel \<Rightarrow> OutOfFuel))"

section \<open>Reading the heap\<close>

text \<open>
  \<open>chain ns p ps\<close>: following \<^verbatim>\<open>next\<close> from the pointer \<open>p\<close> walks through exactly the live
  nodes \<open>ps\<close> and then reaches \<^verbatim>\<open>NULL\<close>. \<open>payload\<close> reads the items stored in them.
\<close>

primrec chain :: "(addr \<rightharpoonup> STaosQnode) \<Rightarrow> addr option \<Rightarrow> addr list \<Rightarrow> bool" where
  "chain ns p [] = (p = None)"
| "chain ns p (a # as) =
     (p = Some a \<and> (case ns a of None \<Rightarrow> False | Some n \<Rightarrow> chain ns (node_next n) as))"

definition payload :: "(addr \<rightharpoonup> STaosQnode) \<Rightarrow> addr list \<Rightarrow> byte list list" where
  "payload ns ps = map (\<lambda>a. case ns a of None \<Rightarrow> [] | Some n \<Rightarrow> node_item n) ps"

text \<open>The member list of a set is linked through the \<^verbatim>\<open>next\<close> field of the queues.\<close>

primrec members :: "(addr \<rightharpoonup> STaosQueue) \<Rightarrow> addr option \<Rightarrow> addr list \<Rightarrow> bool" where
  "members qs p [] = (p = None)"
| "members qs p (a # as) =
     (p = Some a \<and> (case qs a of None \<Rightarrow> False | Some q \<Rightarrow> members qs (queue_next q) as))"

text \<open>
  The queue at \<open>queue\<close> is linked when its head starts the chain \<open>ps\<close> and its tail is the
  last node of it; it is well formed when, in addition, its counter is the length of the
  chain. The invariant of the data model is a statement about the three fields alone.
\<close>

definition queue_linked :: "heap \<Rightarrow> addr \<Rightarrow> addr list \<Rightarrow> bool" where
  "queue_linked h queue ps =
     (case queues h queue of
        None \<Rightarrow> False
      | Some q \<Rightarrow>
          chain (nodes h) (queue_head q) ps \<and>
          queue_tail q = (if ps = [] then None else Some (last ps)))"

definition queue_wf :: "heap \<Rightarrow> addr \<Rightarrow> addr list \<Rightarrow> bool" where
  "queue_wf h queue ps =
     (queue_linked h queue ps \<and>
      (case queues h queue of
         None \<Rightarrow> False
       | Some q \<Rightarrow> sint (queue_numOfItems q) = int (length ps)))"

definition head_tail_count :: "STaosQueue \<Rightarrow> bool" where
  "head_tail_count q =
     (((queue_head q = None) = (queue_tail q = None)) \<and>
      ((queue_tail q = None) = (queue_numOfItems q = 0)))"

text \<open>
  What a call needs in order not to fault: the item size is not negative, every node of
  the chain carries that many bytes, and the set the queue points to is live.
\<close>

definition items_fit :: "heap \<Rightarrow> addr \<Rightarrow> addr list \<Rightarrow> bool" where
  "items_fit h queue ps =
     (case queues h queue of
        None \<Rightarrow> False
      | Some q \<Rightarrow>
          0 \<le> sint (queue_itemSize q) \<and>
          (\<forall>a \<in> set ps. case nodes h a of
                            None \<Rightarrow> False
                          | Some n \<Rightarrow> length (node_item n) = nat (sint (queue_itemSize q))) \<and>
          (case queue_qset q of None \<Rightarrow> True | Some s \<Rightarrow> qsets h s \<noteq> None))"

text \<open>
  All live queues at once: \<open>Q\<close> lists them, \<open>ch\<close> gives each its chain, every one is well
  formed, and no node is in two chains.
\<close>

definition queues_inv :: "heap \<Rightarrow> addr list \<Rightarrow> (addr \<Rightarrow> addr list) \<Rightarrow> bool" where
  "queues_inv h Q ch =
     (dom (queues h) = set Q \<and>
      (\<forall>a \<in> set Q. queue_wf h a (ch a)) \<and>
      (\<forall>a \<in> set Q. \<forall>b \<in> set Q. a \<noteq> b \<longrightarrow> set (ch a) \<inter> set (ch b) = {}))"

section \<open>Sequences of calls\<close>

text \<open>
  \<open>write_all\<close> enqueues the items of a list one after the other, each with the address
  its node is allocated at. \<open>read_n\<close> and \<open>get_n\<close> call \<^verbatim>\<open>taosReadQitem\<close> and \<^verbatim>\<open>taosGetQitem\<close>
  \<open>n\<close> times with the same buffer and list, per call, the buffer and the return code.
\<close>

fun write_all :: "heap \<Rightarrow> addr \<Rightarrow> (byte list \<times> addr) list \<Rightarrow> heap outcome" where
  "write_all h queue [] = Return h"
| "write_all h queue ((item, pNode) # rest) =
     (case taosWriteQitem h queue item (Some pNode) of
        Return (h', code) \<Rightarrow> write_all h' queue rest
      | Fault \<Rightarrow> Fault
      | OutOfFuel \<Rightarrow> OutOfFuel)"

fun read_n ::
  "nat \<Rightarrow> heap \<Rightarrow> addr \<Rightarrow> byte list \<Rightarrow> (heap \<times> (byte list \<times> int) list) outcome" where
  "read_n 0 h queue item = Return (h, [])"
| "read_n (Suc n) h queue item =
     (case taosReadQitem h queue item of
        Return (h', item', code) \<Rightarrow>
          (case read_n n h' queue item' of
             Return (h'', rs) \<Rightarrow> Return (h'', (item', code) # rs)
           | Fault \<Rightarrow> Fault
           | OutOfFuel \<Rightarrow> OutOfFuel)
      | Fault \<Rightarrow> Fault
      | OutOfFuel \<Rightarrow> OutOfFuel)"

fun get_n ::
  "nat \<Rightarrow> heap \<Rightarrow> addr \<Rightarrow> byte list \<Rightarrow> (heap \<times> (byte list \<times> int) list) outcome" where
  "get_n 0 h qall item = Return (h, [])"
| "get_n (Suc n) h qall item =
     (case taosGetQitem h qall item of
        Return (h', item', code) \<Rightarrow>
          (case get_n n h' qall item' of
             Return (h'', rs) \<Rightarrow> Return (h'', (item', code) # rs)
           | Fault \<Rightarrow> Fault
           | OutOfFuel \<Rightarrow> OutOfFuel)
      | Fault \<Rightarrow> Fault
      | OutOfFuel \<Rightarrow> OutOfFuel)"

text \<open>
  The counters of the queues in a list, added up as \<^verbatim>\<open>int32_t\<close> values; this is what the
  item counter of a set with these members is meant to hold.
\<close>

definition member_items :: "heap \<Rightarrow> addr list \<Rightarrow> int32_t" where
  "member_items h ms =
     sum_list (map (\<lambda>a. case queues h a of None \<Rightarrow> 0 | Some q \<Rightarrow> queue_numOfItems q) ms)"

text \<open>
  A run from the empty heap: open set 20, open queue 7 with four-byte items, add the queue
  to the set, enqueue one item (node 10), remove the queue from the set.
\<close>

definition head_removal_run :: "heap outcome" where
  "head_removal_run =
     (let (h1, s) = taosOpenQset empty_heap (Some 20);
          (h2, q) = taosOpenQueue h1 4 (Some 7) in
      case taosAddIntoQset h2 20 7 of
        Return (h3, c3) \<Rightarrow>
          (case taosWriteQitem h3 7 [4, 3, 2, 1] (Some 10) of
             Return (h4, c4) \<Rightarrow> taosRemoveFromQset 8 h4 20 7
           | Fault \<Rightarrow> Fault
           | OutOfFuel \<Rightarrow> OutOfFuel)
      | Fault \<Rightarrow> Fault
      | OutOfFuel \<Rightarrow> OutOfFuel)"

section \<open>Example heaps\<close>

text \<open>
  Queue 7 holds one four-byte item in node 10 and is the only member of set 20; set 21 is
  empty; batch view 30 owns node 11 and has been walked to its end.
\<close>

definition example_heap :: heap where
  "example_heap =
     \<lparr>nodes = [10 \<mapsto> \<lparr>node_next = None, node_item = [4, 3, 2, 1]\<rparr>,
               11 \<mapsto> \<lparr>node_next = None, node_item = [8, 7, 6, 5]\<rparr>],
      queues = [7 \<mapsto> \<lparr>queue_itemSize = 4, queue_numOfItems = 1, queue_head = Some 10,
                       queue_tail = Some 10, queue_next = None, queue_qset = Some 20\<rparr>],
      qsets = [20 \<mapsto> \<lparr>qset_head = Some 7, qset_current = None, qset_numOfQueues = 1,
                        qset_numOfItems = 1\<rparr>,
               21 \<mapsto> \<lparr>qset_head = None, qset_current = None, qset_numOfQueues = 0,
                        qset_numOfItems = 0\<rparr>],
      qalls = [30 \<mapsto> \<lparr>qall_current = None, qall_start = Some 11, qall_itemSize = 4,
                        qall_numOfItems = 1\<rparr>],
      terrno = TSDB_CODE_SUCCESS\<rparr>"

text \<open>
  Set 20 with the member list 8, 7 and the cursor at \<^verbatim>\<open>NULL\<close>; each queue holds one
  four-byte item.
\<close>

definition two_queue_heap :: heap where
  "two_queue_heap =
     \<lparr>nodes = [10 \<mapsto> \<lparr>node_next = None, node_item = [4, 3, 2, 1]\<rparr>,
               11 \<mapsto> \<lparr>node_next = None, node_item = [8, 7, 6, 5]\<rparr>],
      queues = [7 \<mapsto> \<lparr>queue_itemSize = 4, queue_numOfItems = 1, queue_head = Some 10,
                       queue_tail = Some 10, queue_next = None, queue_qset = Some 20\<rparr>,
                8 \<mapsto> \<lparr>queue_itemSize = 4, queue_numOfItems = 1, queue_head = Some 11,
                       queue_tail = Some 11, queue_next = Some 7, queue_qset = Some 20\<rparr>],
      qsets = [20 \<mapsto> \<lparr>qset_head = Some 8, qset_current = None, qset_numOfQueues = 2,
                        qset_numOfItems = 2\<rparr>],
      qalls = Map.empty, terrno = TSDB_CODE_SUCCESS\<rparr>"

text \<open>A queue for four-byte items, just opened at address 7 in the empty heap.\<close>

definition fresh_queue_heap :: heap where
  "fresh_queue_heap = fst (taosOpenQueue empty_heap 4 (Some 7))"

section \<open>The order of a scan\<close>

text \<open>
  \<open>scan_order qs first cur n\<close> lists the queues that the cursor of a set passes in \<open>n\<close>
  steps: it starts at \<open>cur\<close>, moves along the \<^verbatim>\<open>next\<close> pointers, and starts again at the head
  \<open>first\<close> of the member list when it is \<^verbatim>\<open>NULL\<close>. \<open>queue_empty\<close> says that a live queue has
  no head node.
\<close>

fun scan_order ::
  "(addr \<rightharpoonup> STaosQueue) \<Rightarrow> addr option \<Rightarrow> addr option \<Rightarrow> nat \<Rightarrow> addr list" where
  "scan_order qs first cur 0 = []"
| "scan_order qs first cur (Suc n) =
     (case (if cur = None then first else cur) of
        None \<Rightarrow> []
      | Some a \<Rightarrow>
          (case qs a of
             None \<Rightarrow> [a]
           | Some q \<Rightarrow> a # scan_order qs first (queue_next q) n))"

definition queue_empty :: "heap \<Rightarrow> addr \<Rightarrow> bool" where
  "queue_empty h a = (case queues h a of None \<Rightarrow> False | Some q \<Rightarrow> queue_head q = None)"

text \<open>
  \<open>poll_n\<close> calls \<^verbatim>\<open>taosReadQitemFromQset\<close> \<open>n\<close> times and lists, per call, the queues that
  the call visited.
\<close>

fun poll_n :: "nat \<Rightarrow> heap \<Rightarrow> addr \<Rightarrow> byte list \<Rightarrow> (heap \<times> addr list list) outcome" where
  "poll_n 0 h qset item = Return (h, [])"
| "poll_n (Suc n) h qset item =
     (case taosReadQitemFromQset h qset item of
        Return (h', item', code, visited) \<Rightarrow>
          (case poll_n n h' qset item' of
             Return (h'', vss) \<Rightarrow> Return (h'', visited # vss)
           | Fault \<Rightarrow> Fault
           | OutOfFuel \<Rightarrow> OutOfFuel)
      | Fault \<Rightarrow> Fault
      | OutOfFuel \<Rightarrow> OutOfFuel)"

text \<open>
  What one call of \<^verbatim>\<open>taosReadQitemFromQset\<close> on the set \<open>s\<close> at \<open>qset\<close> has done when it
  returns the heap \<open>h'\<close>, the buffer \<open>item'\<close> and the code \<open>c\<close> after visiting the queues
  \<open>vs\<close>, with a budget of \<open>n\<close> rounds:
  \<^item> the visited queues are the first ones in the order of the scan, at most \<open>n\<close>;
  \<^item> all but the last were empty;
  \<^item> the cursor is the \<^verbatim>\<open>next\<close> pointer of the last visited queue (and is where it was
    when none was visited);
  \<^item> with code 1, the last visited queue had a head node; its item is in the buffer,
    the node is freed, the queue starts at the following node and counts one item less,
    and so does the set;
  \<^item> otherwise the code is 0, the scan was not cut short (the visited queues are all
    the queues of the scan order within the budget), every one of them was empty, and
    nodes, queues, buffer and the item count of the set are as before.
\<close>

definition scan_outcome ::
  "heap \<Rightarrow> addr \<Rightarrow> STaosQset \<Rightarrow> byte list \<Rightarrow> nat \<Rightarrow> addr list \<Rightarrow>
     heap \<Rightarrow> byte list \<Rightarrow> int \<Rightarrow> bool" where
  "scan_outcome h qset s item n vs h' item' c =
     (take (length vs) (scan_order (queues h) (qset_head s) (qset_current s) n) = vs \<and>
      length vs \<le> n \<and>
      (\<forall>a \<in> set (butlast vs). queue_empty h a) \<and>
      qalls h' = qalls h \<and> terrno h' = terrno h \<and>
      qsets h' = (qsets h)(qset \<mapsto>
         s\<lparr>qset_current :=
               (if vs = [] then qset_current s
                else case queues h (last vs) of None \<Rightarrow> None | Some q \<Rightarrow> queue_next q),
           qset_numOfItems := (if c = 1 then qset_numOfItems s - 1 else qset_numOfItems s)\<rparr>) \<and>
      (if c = 1 then
         vs \<noteq> [] \<and>
         (\<exists>q p nd. queues h (last vs) = Some q \<and> queue_head q = Some p \<and>
            nodes h p = Some nd \<and>
            memcpy item (node_item nd) (sint (queue_itemSize q)) = Some item' \<and>
            nodes h' = (nodes h)(p := None) \<and>
            queues h' = (queues h)(last vs \<mapsto>
               q\<lparr>queue_head := node_next nd,
                 queue_tail := (if node_next nd = None then None else queue_tail q),
                 queue_numOfItems := queue_numOfItems q - 1\<rparr>))
       else
         c = 0 \<and> scan_order (queues h) (qset_head s) (qset_current s) n = vs \<and>
         (\<forall>a \<in> set vs. queue_empty h a) \<and>
         nodes h' = nodes h \<and> queues h' = queues h \<and> item' = item))"

text \<open>
  A queue a poll can take an item from without a fault, into a buffer of \<open>L\<close> bytes: it is
  live, it has a live head node, and its item size is not negative and not beyond the node's
  payload or the buffer. \<open>head_node\<close> is the head pointer of a queue.
\<close>

definition queue_ready :: "heap \<Rightarrow> nat \<Rightarrow> addr \<Rightarrow> bool" where
  "queue_ready h L a =
     (case queues h a of
        None \<Rightarrow> False
      | Some q \<Rightarrow>
          (case queue_head q of
             None \<Rightarrow> False
           | Some p \<Rightarrow>
               (case nodes h p of
                  None \<Rightarrow> False
                | Some nd \<Rightarrow>
                    0 \<le> sint (queue_itemSize q) \<and>
                    nat (sint (queue_itemSize q)) \<le> length (node_item nd) \<and>
                    nat (sint (queue_itemSize q)) \<le> L)))"

definition head_node :: "heap \<Rightarrow> addr \<Rightarrow> addr option" where
  "head_node h a = (case queues h a of None \<Rightarrow> None | Some q \<Rightarrow> queue_head q)"

text \<open>
  Set 20 with the member list 8, 7 and the cursor at \<^verbatim>\<open>NULL\<close>; queue 8 is empty and queue 7
  holds one item.
\<close>

definition skip_heap :: heap where
  "skip_heap =
     \<lparr>nodes = [10 \<mapsto> \<lparr>node_next = None, node_item = [4, 3, 2, 1]\<rparr>],
      queues = [7 \<mapsto> \<lparr>queue_itemSize = 4, queue_numOfItems = 1, queue_head = Some 10,
                       queue_tail = Some 10, queue_next = None, queue_qset = Some 20\<rparr>,
                8 \<mapsto> \<lparr>queue_itemSize = 4, queue_numOfItems = 0, queue_head = None,
                       queue_tail = None, queue_next = Some 7, queue_qset = Some 20\<rparr>],
      qsets = [20 \<mapsto> \<lparr>qset_head = Some 8, qset_current = None, qset_numOfQueues = 2,
                        qset_numOfItems = 1\<rparr>],
      qalls = Map.empty, terrno = TSDB_CODE_SUCCESS\<rparr>"

text \<open>Running one call after another: the second call gets what the first returned.\<close>

definition and_then :: "'a outcome \<Rightarrow> ('a \<Rightarrow> 'b outcome) \<Rightarrow> 'b outcome" where
  "and_then m f = (case m of Return x \<Rightarrow> f x | Fault \<Rightarrow> Fault | OutOfFuel \<Rightarrow> OutOfFuel)"

text \<open>
  A run from the empty heap: open set 20 and the queues 7, 8 and 9 with four-byte items;
  add 7, 8 and 9 to the set, which makes the member list 9, 8, 7; enqueue one item into
  each queue; poll once, which visits queue 9 and leaves the cursor at queue 8; remove
  queue 9 and then queue 8, each the head of the list when it is removed.
\<close>

definition stale_cursor_run :: "heap outcome" where
  "stale_cursor_run =
     (let (h1, s) = taosOpenQset empty_heap (Some 20);
          (h2, q7) = taosOpenQueue h1 4 (Some 7);
          (h3, q8) = taosOpenQueue h2 4 (Some 8);
          (h4, q9) = taosOpenQueue h3 4 (Some 9) in
      and_then (taosAddIntoQset h4 20 7) (\<lambda>(h5, c5).
      and_then (taosAddIntoQset h5 20 8) (\<lambda>(h6, c6).
      and_then (taosAddIntoQset h6 20 9) (\<lambda>(h7, c7).
      and_then (taosWriteQitem h7 7 [1, 1, 1, 1] (Some 10)) (\<lambda>(h8, c8).
      and_then (taosWriteQitem h8 8 [2, 2, 2, 2] (Some 11)) (\<lambda>(h9, c9).
      and_then (taosWriteQitem h9 9 [3, 3, 3, 3] (Some 12)) (\<lambda>(h10, c10).
      and_then (taosReadQitemFromQset h10 20 [0, 0, 0, 0]) (\<lambda>(h11, item11, c11, vs11).
      and_then (taosRemoveFromQset 8 h11 20 9) (\<lambda>h12.
      taosRemoveFromQset 8 h12 20 8)))))))))"

section \<open>A drain whose allocation fails\<close>

text \<open>
  \<open>calloc_fails\<close> is the allocator that returns \<^verbatim>\<open>NULL\<close> in every round of
  \<^verbatim>\<open>taosReadAllQitemsFromQset\<close>. \<open>upto_nonempty h w\<close> is the part of the list \<open>w\<close> of queues
  up to and including the first one that is not empty.
\<close>

definition calloc_fails :: "int \<Rightarrow> addr option" where
  "calloc_fails i = None"

fun upto_nonempty :: "heap \<Rightarrow> addr list \<Rightarrow> addr list" where
  "upto_nonempty h [] = []"
| "upto_nonempty h (a # as) = (if queue_empty h a then a # upto_nonempty h as else [a])"

text \<open>
  What \<^verbatim>\<open>taosReadAllQitemsFromQset\<close> on the set \<open>s\<close> at \<open>qset\<close> returns under \<open>calloc_fails\<close>,
  with a budget of \<open>n\<close> rounds. The scan visits the queues of the scan order up to the
  first one that is not empty and leaves the cursor behind the last queue it visited. If
  there is a queue that is not empty, the allocation for it fails: \<^verbatim>\<open>terrno\<close> is set and the
  result is no view and \<open>-1\<close>. If all are empty nothing is allocated and the result is no
  view and 0. Nothing else in the heap changes.
\<close>

definition failed_drain :: "heap \<Rightarrow> addr \<Rightarrow> STaosQset \<Rightarrow> nat \<Rightarrow> heap \<times> addr option \<times> int" where
  "failed_drain h qset s n =
     (let w = scan_order (queues h) (qset_head s) (qset_current s) n;
          vs = upto_nonempty h w;
          hit = (\<exists>a \<in> set w. \<not> queue_empty h a)
      in (h\<lparr>qsets := (qsets h)(qset \<mapsto>
              s\<lparr>qset_current :=
                    (if vs = [] then qset_current s
                     else case queues h (last vs) of
                            None \<Rightarrow> None
                          | Some q \<Rightarrow> queue_next q)\<rparr>),
            terrno := (if hit then TSDB_CODE_NO_RESOURCE else terrno h)\<rparr>,
          None, if hit then - 1 else 0))"

section \<open>Properties\<close>

subsection \<open>Adding a queue that is already bound\<close>

text \<open>
  Claim C7. If the queue is already bound to a set \<open>set1\<close>, then adding it to any set
  \<open>set2\<close> (which may be \<open>set1\<close> itself) returns \<open>-1\<close> and the heap after the call is the
  heap before it: the queue is still bound to \<open>set1\<close>, and no member list, queue count or
  item count of any set has changed.
\<close>

theorem add_to_bound_queue_rejected:
  assumes "queues h queue = Some q" and "queue_qset q = Some set1"
  shows "taosAddIntoQset h set2 queue = Return (h, - 1)"
  using assms by (simp add: taosAddIntoQset_def)

theorem add_to_bound_queue_rejected_witness:
  "taosAddIntoQset example_heap 21 7 = Return (example_heap, - 1) \<and>
   taosAddIntoQset example_heap 20 7 = Return (example_heap, - 1) \<and>
   (\<exists>q. queues example_heap 7 = Some q \<and> queue_qset q = Some 20)"
  using add_to_bound_queue_rejected [of example_heap 7 _ 20 21]
        add_to_bound_queue_rejected [of example_heap 7 _ 20 20]
  by (simp add: example_heap_def)

subsection \<open>Reading past the end of a batch view\<close>

text \<open>
  Claim C10. Once the cursor of a batch view is \<^verbatim>\<open>NULL\<close>, \<^verbatim>\<open>taosGetQitem\<close> returns 0, leaves
  the caller's buffer as it was and leaves the heap, and with it the view's cursor, reset
  point, item count and item size, as it was; so does every further call, any number
  \<open>n\<close> of them.
\<close>

theorem get_at_end_of_sequence:
  assumes "qalls h qall = Some a" and "qall_current a = None"
  shows "taosGetQitem h qall item = Return (h, item, 0) \<and>
         get_n n h qall item = Return (h, replicate n (item, 0))"
proof -
  have one: "taosGetQitem h qall b = Return (h, b, 0)" for b
    using assms by (simp add: taosGetQitem_def)
  have "get_n n h qall item = Return (h, replicate n (item, 0))"
    by (induction n) (simp_all add: one)
  with one show ?thesis by simp
qed

theorem get_at_end_of_sequence_witness:
  "taosGetQitem example_heap 30 [9, 9, 9, 9] = Return (example_heap, [9, 9, 9, 9], 0) \<and>
   get_n 3 example_heap 30 [9, 9, 9, 9] =
     Return (example_heap, [([9, 9, 9, 9], 0), ([9, 9, 9, 9], 0), ([9, 9, 9, 9], 0)])"
  using get_at_end_of_sequence [of example_heap 30 _ "[9, 9, 9, 9]" 3]
  by (simp add: example_heap_def numeral_3_eq_3)

subsection \<open>Removing a queue from a set\<close>

text \<open>
  \<^verbatim>\<open>taosRemoveFromQset\<close> has three behaviours. For the head of the member list it unlinks
  the queue and decrements the queue count, and that is all: the statements that subtract
  the queue's items from the set and clear \<^verbatim>\<open>queue->qset\<close> are in the other branch only.
\<close>

lemma remove_head:
  assumes "qsets h qset = Some s" and "qset_head s = Some queue" and "queues h queue = Some q"
  shows "taosRemoveFromQset fuel h qset queue =
           Return (h\<lparr>qsets := (qsets h)(qset \<mapsto>
              s\<lparr>qset_head := queue_next q, qset_numOfQueues := qset_numOfQueues s - 1\<rparr>)\<rparr>)"
  using assms by (simp add: taosRemoveFromQset_def)

text \<open>
  For a member below the head the matching branch does subtract and clear, but it neither
  advances \<^verbatim>\<open>tqueue\<close> nor leaves the loop, so the loop finds the same match again and
  again: whatever the fuel, the call has not returned when it is used up.
\<close>

lemma remove_scan_match_never_returns:
  "queues h prev \<noteq> None \<Longrightarrow> queues h queue \<noteq> None \<Longrightarrow> qsets h qset \<noteq> None \<Longrightarrow>
   remove_scan fuel h qset queue prev (Some queue) = OutOfFuel"
proof (induction fuel arbitrary: h)
  case 0
  show ?case by simp
next
  case (Suc fuel)
  from Suc.prems obtain pq q s where live:
    "queues h prev = Some pq" "queues h queue = Some q" "qsets h qset = Some s"
    by auto
  have again: "remove_scan fuel h' qset queue prev (Some queue) = OutOfFuel"
    if "queues h' prev \<noteq> None" "queues h' queue \<noteq> None" "qsets h' qset \<noteq> None" for h'
    using that by (rule Suc.IH)
  show ?case
    using live again by (auto simp: atomic_sub_fetch_32_def Let_def)
qed

lemma remove_scan_member_never_returns:
  "members (queues h) p (xs @ queue # ys) \<Longrightarrow> queue \<notin> set xs \<Longrightarrow>
   queues h prev \<noteq> None \<Longrightarrow> qsets h qset \<noteq> None \<Longrightarrow>
   remove_scan fuel h qset queue prev p = OutOfFuel"
proof (induction xs arbitrary: p prev fuel)
  case Nil
  then show ?case
    by (auto simp: remove_scan_match_never_returns split: option.splits)
next
  case (Cons x xs)
  show ?case
  proof (cases fuel)
    case 0
    with Cons.prems show ?thesis by simp
  next
    case (Suc n)
    with Cons.prems show ?thesis
      by (auto intro!: Cons.IH split: option.splits)
  qed
qed

lemma remove_below_head_never_returns:
  assumes "qsets h qset = Some s"
    and "members (queues h) (qset_head s) (first # rest)"
    and "queue \<in> set rest" and "queue \<noteq> first"
  shows "taosRemoveFromQset fuel h qset queue = OutOfFuel"
proof -
  obtain xs ys where rest: "rest = xs @ queue # ys" and nin: "queue \<notin> set xs"
    using assms(3) by (meson split_list_first)
  obtain fq where fq: "queues h first = Some fq"
    and tl: "members (queues h) (queue_next fq) (xs @ queue # ys)"
    using assms(2) rest by (auto split: option.splits)
  have "remove_scan fuel h qset queue first (queue_next fq) = OutOfFuel"
    using tl nin fq assms(1) by (intro remove_scan_member_never_returns) auto
  then show ?thesis
    using assms fq by (simp add: taosRemoveFromQset_def)
qed

text \<open>For a queue that is not in the member list the scan ends and changes nothing.\<close>

lemma remove_scan_non_member:
  "members (queues h) p ms \<Longrightarrow> queue \<notin> set ms \<Longrightarrow> length ms \<le> fuel \<Longrightarrow>
   remove_scan fuel h qset queue prev p = Return h"
proof (induction ms arbitrary: p prev fuel)
  case Nil
  then show ?case by simp
next
  case (Cons x xs)
  then obtain n where "fuel = Suc n" by (cases fuel) auto
  with Cons.prems show ?case
    by (auto intro!: Cons.IH split: option.splits)
qed

lemma remove_non_member:
  assumes "qsets h qset = Some s"
    and "members (queues h) (qset_head s) ms"
    and "queue \<notin> set ms" and "length ms \<le> fuel"
  shows "taosRemoveFromQset fuel h qset queue = Return h"
proof (cases ms)
  case Nil
  with assms show ?thesis by (simp add: taosRemoveFromQset_def)
next
  case (Cons first rest)
  with assms show ?thesis
    by (auto simp: taosRemoveFromQset_def remove_scan_non_member split: option.splits)
qed

text \<open>
  Claim C2 says that removing a member, the first of the list included, unlinks it,
  decrements the queue count, subtracts its items from the set's item count and clears its
  set reference. Evaluated on the example heap, where queue 7 is the head of set 20 and
  holds one item: the call returns, the member list is empty and the queue count is 0, but
  the item count of the set is still 1 and the queue still points to set 20 (the store of
  queues is unchanged).
\<close>

theorem remove_head_keeps_count_and_reference:
  "taosRemoveFromQset 8 example_heap 20 7 =
     Return (example_heap\<lparr>qsets := (qsets example_heap)(20 \<mapsto>
        \<lparr>qset_head = None, qset_current = None, qset_numOfQueues = 0,
         qset_numOfItems = 1\<rparr>)\<rparr>)"
  by (simp add: taosRemoveFromQset_def example_heap_def)

text \<open>
  Claim C1 says that after any sequence of operations the item count of a set is the sum
  of the item counts of its members. After the run \<open>head_removal_run\<close> the set has no
  members, so the sum is 0, and its item count is 1.
\<close>

theorem aggregate_survives_head_removal:
  "\<exists>h s. head_removal_run = Return h \<and> qsets h 20 = Some s \<and>
         members (queues h) (qset_head s) [] \<and> qset_numOfItems s = 1 \<and>
         member_items h [] = 0"
  by (simp add: head_removal_run_def taosOpenQset_def taosOpenQueue_def empty_heap_def
       taosAddIntoQset_def taosWriteQitem_def memcpy_def atomic_add_fetch_32_def
       taosRemoveFromQset_def member_items_def Let_def)

text \<open>
  Claim C3 says that closing a queue that is a member of a set leaves the set with one
  member less and with the queue's remaining items subtracted from its item count.
  \<^verbatim>\<open>taosCloseQueue\<close> does call \<^verbatim>\<open>taosRemoveFromQset\<close>, so it inherits what that function does
  for the head of the list. Evaluated on the example heap: node 10 and queue 7 are freed,
  set 20 has no member and queue count 0, and its item count is still 1.
\<close>

theorem close_head_keeps_count:
  "taosCloseQueue 8 example_heap 7 =
     Return (example_heap\<lparr>
        nodes := (nodes example_heap)(10 := None),
        queues := Map.empty,
        qsets := (qsets example_heap)(20 \<mapsto>
          \<lparr>qset_head = None, qset_current = None, qset_numOfQueues = 0,
           qset_numOfItems = 1\<rparr>)\<rparr>)"
  by (simp add: taosCloseQueue_def taosRemoveFromQset_def example_heap_def Let_def
        eval_nat_numeral)

subsection \<open>Chains of nodes\<close>

lemma chain_cong:
  "(\<And>a. a \<in> set ps \<Longrightarrow> ns' a = ns a) \<Longrightarrow> chain ns' p ps = chain ns p ps"
  by (induction ps arbitrary: p) (auto split: option.splits)

lemma chain_upd_other: "a \<notin> set ps \<Longrightarrow> chain (ns(a := v)) p ps = chain ns p ps"
  by (rule chain_cong) auto

lemma chain_live: "chain ns p ps \<Longrightarrow> a \<in> set ps \<Longrightarrow> ns a \<noteq> None"
  by (induction ps arbitrary: p) (auto split: option.splits)

lemma chain_unique: "chain ns p ps \<Longrightarrow> chain ns p qs \<Longrightarrow> ps = qs"
proof (induction ps arbitrary: p qs)
  case Nil
  then show ?case by (cases qs) auto
next
  case (Cons a as)
  then show ?case by (cases qs) (auto split: option.splits)
qed

lemma chain_suffix:
  "chain ns p (xs @ a # ys) \<Longrightarrow> \<exists>n. ns a = Some n \<and> chain ns (node_next n) ys"
  by (induction xs arbitrary: p) (auto split: option.splits)

lemma chain_distinct: "chain ns p ps \<Longrightarrow> distinct ps"
proof (induction ps arbitrary: p)
  case Nil
  show ?case by simp
next
  case (Cons a as)
  then obtain n where n: "ns a = Some n" and rest: "chain ns (node_next n) as"
    by (auto split: option.splits)
  have "a \<notin> set as"
  proof
    assume "a \<in> set as"
    then obtain xs ys where as: "as = xs @ a # ys" by (meson split_list)
    with rest n have "chain ns (node_next n) ys" by (auto dest: chain_suffix)
    with rest have "as = ys" by (rule chain_unique)
    with as show False by simp
  qed
  with Cons.IH [OF rest] show ?case by simp
qed

lemma chain_last:
  "chain ns p ps \<Longrightarrow> ps \<noteq> [] \<Longrightarrow> \<exists>n. ns (last ps) = Some n \<and> node_next n = None"
  by (induction ps arbitrary: p) (auto split: option.splits)

lemma chain_snoc:
  "chain ns p ps \<Longrightarrow> ps \<noteq> [] \<Longrightarrow> distinct ps \<Longrightarrow> new \<notin> set ps \<Longrightarrow>
   ns (last ps) = Some tn \<Longrightarrow>
   chain (ns(new \<mapsto> \<lparr>node_next = None, node_item = b\<rparr>,
             last ps \<mapsto> tn\<lparr>node_next := Some new\<rparr>)) p (ps @ [new])"
proof (induction ps arbitrary: p)
  case Nil
  then show ?case by simp
next
  case (Cons a as)
  show ?case
  proof (cases "as = []")
    case True
    with Cons.prems show ?thesis by auto
  next
    case False
    with Cons.prems show ?thesis
      by (auto split: option.splits dest!: Cons.IH)
  qed
qed

lemma payload_cong:
  "(\<And>a. a \<in> set ps \<Longrightarrow> map_option node_item (ns' a) = map_option node_item (ns a)) \<Longrightarrow>
   payload ns' ps = payload ns ps"
proof -
  assume same: "\<And>a. a \<in> set ps \<Longrightarrow> map_option node_item (ns' a) = map_option node_item (ns a)"
  have "(case ns' a of None \<Rightarrow> [] | Some n \<Rightarrow> node_item n) =
        (case ns a of None \<Rightarrow> [] | Some n \<Rightarrow> node_item n)" if "a \<in> set ps" for a
    using same [OF that] by (cases "ns' a"; cases "ns a") auto
  then show ?thesis by (simp add: payload_def)
qed

subsection \<open>Counters\<close>

text \<open>The counters are signed 32-bit numbers; below \<^verbatim>\<open>INT32_MAX\<close> incrementing does not wrap.\<close>

lemma sint_zero_iff: "(sint (c :: int32_t) = 0) = (c = 0)"
  by (metis signed_eq_0_iff)

lemma sint_inc:
  assumes "sint (c :: int32_t) = int n" and "n < 2 ^ 31 - 1"
  shows "sint (c + 1) = int (n + 1)"
proof -
  have "sint (c + 1) = signed_take_bit 31 (int n + 1)"
    using assms(1) by (simp add: sint_word_add)
  also have "\<dots> = int n + 1"
    using assms(2) by (intro signed_take_bit_int_eq_self) auto
  finally show ?thesis by simp
qed

lemma sint_dec:
  assumes "sint (c :: int32_t) = int (Suc n)"
  shows "sint (c - 1) = int n"
proof -
  have "sint c < 2 ^ 31" using sint_lt [of c] by simp
  with assms have bound: "int n < 2 ^ 31" by simp
  have "sint (c - 1) = signed_take_bit 31 (int (Suc n) - 1)"
    using assms by (simp add: sint_word_diff)
  also have "\<dots> = int n"
    using bound by (simp add: signed_take_bit_int_eq_self)
  finally show ?thesis .
qed

subsection \<open>Enqueue and dequeue on a linked queue\<close>

lemma queue_linkedD:
  "queue_linked h queue ps \<Longrightarrow>
   \<exists>q. queues h queue = Some q \<and> chain (nodes h) (queue_head q) ps \<and>
       queue_tail q = (if ps = [] then None else Some (last ps))"
  by (auto simp: queue_linked_def split: option.splits)

lemma items_fit_iff:
  "items_fit h queue ps =
     (\<exists>q. queues h queue = Some q \<and> 0 \<le> sint (queue_itemSize q) \<and>
          (\<forall>a \<in> set ps. \<exists>n. nodes h a = Some n \<and>
                length (node_item n) = nat (sint (queue_itemSize q))) \<and>
          (\<forall>s. queue_qset q = Some s \<longrightarrow> qsets h s \<noteq> None))"
  by (auto simp: items_fit_def split: option.splits)

lemma write_effect:
  assumes ret: "taosWriteQitem h queue item (Some p) = Return (h', c)"
    and linked: "queue_linked h queue ps"
    and fresh: "nodes h p = None"
  shows "c = 0"
    and "queue_linked h' queue (ps @ [p])"
    and "\<exists>q q'. queues h queue = Some q \<and> queues h' queue = Some q' \<and>
           queue_numOfItems q' = queue_numOfItems q + 1 \<and>
           queue_itemSize q' = queue_itemSize q \<and> queue_qset q' = queue_qset q \<and>
           queue_next q' = queue_next q \<and>
           nodes h' p = Some \<lparr>node_next = None,
                               node_item = take (nat (sint (queue_itemSize q))) item\<rparr>"
    and "\<And>a. a \<noteq> p \<Longrightarrow> a \<notin> set ps \<Longrightarrow> nodes h' a = nodes h a"
    and "\<And>a. a \<noteq> p \<Longrightarrow> map_option node_item (nodes h' a) = map_option node_item (nodes h a)"
    and "\<And>b. b \<noteq> queue \<Longrightarrow> queues h' b = queues h b"
    and "qalls h' = qalls h"
    and "dom (qsets h') = dom (qsets h)"
proof -
  obtain q where q: "queues h queue = Some q"
    and ch: "chain (nodes h) (queue_head q) ps"
    and tl: "queue_tail q = (if ps = [] then None else Some (last ps))"
    using queue_linkedD [OF linked] by blast
  have pnew: "p \<notin> set ps" using chain_live [OF ch, of p] fresh by auto
  have dist: "distinct ps" using ch by (rule chain_distinct)
  note defs = taosWriteQitem_def Let_def atomic_add_fetch_32_def memcpy_def
  show "c = 0"
    using ret q by (auto simp: defs split: option.splits if_splits)
  show "queues h' b = queues h b" if "b \<noteq> queue" for b
    using ret q that by (auto simp: defs split: option.splits if_splits)
  show "qalls h' = qalls h"
    using ret q by (auto simp: defs split: option.splits if_splits)
  show "dom (qsets h') = dom (qsets h)"
    using ret q by (auto simp: defs split: option.splits if_splits)
  show "queue_linked h' queue (ps @ [p])"
  proof (cases "ps = []")
    case True
    with ret q ch tl show ?thesis
      by (auto simp: defs queue_linked_def split: option.splits if_splits)
  next
    case False
    obtain tn where tn: "nodes h (last ps) = Some tn"
      using chain_last [OF ch False] by blast
    have lp: "last ps \<noteq> p" using False pnew by auto
    note sn = chain_snoc [OF ch False dist pnew tn]
    from ret q tl False tn lp sn show ?thesis
      by (auto simp: defs queue_linked_def split: option.splits if_splits)
  qed
  show "\<exists>q q'. queues h queue = Some q \<and> queues h' queue = Some q' \<and>
           queue_numOfItems q' = queue_numOfItems q + 1 \<and>
           queue_itemSize q' = queue_itemSize q \<and> queue_qset q' = queue_qset q \<and>
           queue_next q' = queue_next q \<and>
           nodes h' p = Some \<lparr>node_next = None,
                               node_item = take (nat (sint (queue_itemSize q))) item\<rparr>"
  proof (cases "ps = []")
    case True
    with ret q tl show ?thesis
      by (auto simp: defs split: option.splits if_splits)
  next
    case False
    have lp: "last ps \<noteq> p" using False pnew by auto
    from ret q tl False lp show ?thesis
      by (auto simp: defs split: option.splits if_splits)
  qed
  show "nodes h' a = nodes h a" if "a \<noteq> p" "a \<notin> set ps" for a
  proof (cases "ps = []")
    case True
    with ret q tl that show ?thesis
      by (auto simp: defs split: option.splits if_splits)
  next
    case False
    then have "a \<noteq> last ps" using that by auto
    with ret q tl False that show ?thesis
      by (auto simp: defs split: option.splits if_splits)
  qed
  show "map_option node_item (nodes h' a) = map_option node_item (nodes h a)" if "a \<noteq> p" for a
    using ret q that by (auto simp: defs split: option.splits if_splits)
qed


lemma write_returns:
  assumes q: "queues h queue = Some q"
    and linked: "queue_linked h queue ps"
    and fit: "items_fit h queue ps"
    and len: "nat (sint (queue_itemSize q)) \<le> length item"
  shows "\<exists>h'. taosWriteQitem h queue item (Some p) = Return (h', 0)"
proof -
  have ch: "chain (nodes h) (queue_head q) ps"
    and tl: "queue_tail q = (if ps = [] then None else Some (last ps))"
    using queue_linkedD [OF linked] q by auto
  have sz: "0 \<le> sint (queue_itemSize q)"
    and st: "case queue_qset q of None \<Rightarrow> True | Some s \<Rightarrow> qsets h s \<noteq> None"
    using fit q by (auto simp: items_fit_def)
  have mc: "memcpy (replicate (nat (sint (queue_itemSize q))) 0) item (sint (queue_itemSize q)) =
              Some (take (nat (sint (queue_itemSize q))) item)"
    using sz len by (simp add: memcpy_def)
  show ?thesis
  proof (cases "ps = []")
    case True
    with q tl mc st show ?thesis
      by (auto simp: taosWriteQitem_def Let_def atomic_add_fetch_32_def split: option.splits)
  next
    case False
    obtain tn where tn: "nodes h (last ps) = Some tn"
      using chain_last [OF ch False] by blast
    with q tl mc st False show ?thesis
      by (auto simp: taosWriteQitem_def Let_def atomic_add_fetch_32_def split: option.splits)
  qed
qed

lemma write_wf:
  assumes ret: "taosWriteQitem h queue item (Some p) = Return (h', c)"
    and wf: "queue_wf h queue ps"
    and fresh: "nodes h p = None"
    and room: "length ps < 2 ^ 31 - 1"
  shows "queue_wf h' queue (ps @ [p])"
proof -
  have linked: "queue_linked h queue ps" using wf by (simp add: queue_wf_def)
  from write_effect(3) [OF ret linked fresh] obtain q q' where
    "queues h queue = Some q" "queues h' queue = Some q'"
    "queue_numOfItems q' = queue_numOfItems q + 1" by blast
  moreover have "sint (queue_numOfItems q) = int (length ps)"
    using wf \<open>queues h queue = Some q\<close> by (simp add: queue_wf_def)
  ultimately show ?thesis
    using write_effect(2) [OF ret linked fresh] sint_inc [OF _ room]
    by (simp add: queue_wf_def)
qed

lemma write_fit:
  assumes ret: "taosWriteQitem h queue item (Some p) = Return (h', c)"
    and linked: "queue_linked h queue ps"
    and fit: "items_fit h queue ps"
    and fresh: "nodes h p = None"
  shows "items_fit h' queue (ps @ [p])"
proof -
  from write_effect(3) [OF ret linked fresh] obtain q q' where q:
    "queues h queue = Some q" "queues h' queue = Some q'"
    "queue_itemSize q' = queue_itemSize q" "queue_qset q' = queue_qset q"
    "nodes h' p = Some \<lparr>node_next = None,
                         node_item = take (nat (sint (queue_itemSize q))) item\<rparr>" by blast
  have len: "nat (sint (queue_itemSize q)) \<le> length item"
    using ret q(1)
    by (auto simp: taosWriteQitem_def memcpy_def split: option.splits if_splits)
  from fit q(1) have sz: "0 \<le> sint (queue_itemSize q)"
    and olds: "\<forall>a \<in> set ps. \<exists>n. nodes h a = Some n \<and>
                length (node_item n) = nat (sint (queue_itemSize q))"
    and st: "\<forall>s. queue_qset q = Some s \<longrightarrow> qsets h s \<noteq> None"
    by (auto simp: items_fit_iff)
  have pnew: "p \<notin> set ps"
    using chain_live [of "nodes h" _ ps p] queue_linkedD [OF linked] fresh by auto
  have old: "\<exists>n. nodes h' a = Some n \<and> length (node_item n) = nat (sint (queue_itemSize q))"
    if "a \<in> set ps" for a
  proof -
    have "a \<noteq> p" using that pnew by auto
    from write_effect(5) [OF ret linked fresh this] olds that show ?thesis
      by (cases "nodes h' a") auto
  qed
  have new: "\<exists>n. nodes h' p = Some n \<and> length (node_item n) = nat (sint (queue_itemSize q))"
    using q(5) len by simp
  have st': "qsets h' s \<noteq> None" if "queue_qset q = Some s" for s
    using write_effect(8) [OF ret linked fresh] st that by (auto simp: dom_def)
  show ?thesis
    unfolding items_fit_iff using q(2,3,4) sz old new st' by auto
qed

lemma write_payload:
  assumes ret: "taosWriteQitem h queue item (Some p) = Return (h', c)"
    and linked: "queue_linked h queue ps"
    and fresh: "nodes h p = None"
    and q: "queues h queue = Some q"
  shows "payload (nodes h') (ps @ [p]) =
           payload (nodes h) ps @ [take (nat (sint (queue_itemSize q))) item]"
proof -
  have pnew: "p \<notin> set ps"
    using chain_live [of "nodes h" _ ps p] queue_linkedD [OF linked] fresh by auto
  have "map_option node_item (nodes h' a) = map_option node_item (nodes h a)"
    if "a \<in> set ps" for a
    using write_effect(5) [OF ret linked fresh, of a] that pnew by auto
  then have "payload (nodes h') ps = payload (nodes h) ps"
    by (rule payload_cong)
  moreover have "payload (nodes h') [p] = [take (nat (sint (queue_itemSize q))) item]"
    using write_effect(3) [OF ret linked fresh] q by (auto simp: payload_def)
  ultimately show ?thesis by (simp add: payload_def)
qed

lemma read_empty:
  assumes "queues h queue = Some q" and "queue_head q = None"
  shows "taosReadQitem h queue item = Return (h, item, 0)"
  using assms by (simp add: taosReadQitem_def)

lemma read_effect:
  assumes ret: "taosReadQitem h queue item = Return (h', item', c)"
    and linked: "queue_linked h queue (a # as)"
  shows "c = 1"
    and "queue_linked h' queue as"
    and "\<exists>q q' n. queues h queue = Some q \<and> queues h' queue = Some q' \<and>
           queue_numOfItems q' = queue_numOfItems q - 1 \<and>
           queue_itemSize q' = queue_itemSize q \<and> queue_qset q' = queue_qset q \<and>
           queue_next q' = queue_next q \<and> nodes h a = Some n \<and>
           memcpy item (node_item n) (sint (queue_itemSize q)) = Some item'"
    and "nodes h' = (nodes h)(a := None)"
    and "\<And>b. b \<noteq> queue \<Longrightarrow> queues h' b = queues h b"
    and "qalls h' = qalls h"
    and "dom (qsets h') = dom (qsets h)"
proof -
  obtain q where q: "queues h queue = Some q"
    and ch: "chain (nodes h) (queue_head q) (a # as)"
    and tl: "queue_tail q = Some (last (a # as))"
    using queue_linkedD [OF linked] by auto
  from ch obtain n where hd: "queue_head q = Some a" and n: "nodes h a = Some n"
    and rest: "chain (nodes h) (node_next n) as"
    by (auto split: option.splits)
  have "a \<notin> set as" using chain_distinct [OF ch] by simp
  then have rest': "chain ((nodes h)(a := None)) (node_next n) as"
    using rest by (simp add: chain_upd_other)
  have nx: "(node_next n = None) = (as = [])"
    using rest by (cases as) auto
  note defs = taosReadQitem_def Let_def atomic_sub_fetch_32_def
  show "c = 1"
    using ret q hd n by (auto simp: defs split: option.splits if_splits)
  show "nodes h' = (nodes h)(a := None)"
    using ret q hd n by (auto simp: defs split: option.splits if_splits)
  show "qalls h' = qalls h"
    using ret q hd n by (auto simp: defs split: option.splits if_splits)
  show "dom (qsets h') = dom (qsets h)"
    using ret q hd n by (auto simp: defs split: option.splits if_splits)
  show "queues h' b = queues h b" if "b \<noteq> queue" for b
    using ret q hd n that by (auto simp: defs split: option.splits if_splits)
  show "\<exists>q q' n. queues h queue = Some q \<and> queues h' queue = Some q' \<and>
           queue_numOfItems q' = queue_numOfItems q - 1 \<and>
           queue_itemSize q' = queue_itemSize q \<and> queue_qset q' = queue_qset q \<and>
           queue_next q' = queue_next q \<and> nodes h a = Some n \<and>
           memcpy item (node_item n) (sint (queue_itemSize q)) = Some item'"
    using ret q hd n by (auto simp: defs split: option.splits if_splits)
  show "queue_linked h' queue as"
    using ret q hd n tl rest' nx
    by (auto simp: defs queue_linked_def split: option.splits if_splits)
qed

lemma read_returns:
  assumes q: "queues h queue = Some q"
    and linked: "queue_linked h queue (a # as)"
    and fit: "items_fit h queue (a # as)"
    and len: "nat (sint (queue_itemSize q)) \<le> length item"
  shows "\<exists>h' item'. taosReadQitem h queue item = Return (h', item', 1)"
proof -
  have ch: "chain (nodes h) (queue_head q) (a # as)"
    using queue_linkedD [OF linked] q by auto
  then obtain n where hd: "queue_head q = Some a" and n: "nodes h a = Some n"
    by (auto split: option.splits)
  have sz: "0 \<le> sint (queue_itemSize q)"
    and ln: "length (node_item n) = nat (sint (queue_itemSize q))"
    and st: "case queue_qset q of None \<Rightarrow> True | Some s \<Rightarrow> qsets h s \<noteq> None"
    using fit q n by (auto simp: items_fit_def)
  from q hd n sz ln st len show ?thesis
    by (auto simp: taosReadQitem_def Let_def atomic_sub_fetch_32_def memcpy_def
             split: option.splits)
qed

lemma read_wf:
  assumes ret: "taosReadQitem h queue item = Return (h', item', c)"
    and wf: "queue_wf h queue (a # as)"
  shows "queue_wf h' queue as"
proof -
  have linked: "queue_linked h queue (a # as)" using wf by (simp add: queue_wf_def)
  from read_effect(3) [OF ret linked] obtain q q' where
    "queues h queue = Some q" "queues h' queue = Some q'"
    "queue_numOfItems q' = queue_numOfItems q - 1" by blast
  moreover have "sint (queue_numOfItems q) = int (Suc (length as))"
    using wf \<open>queues h queue = Some q\<close> by (simp add: queue_wf_def)
  ultimately show ?thesis
    using read_effect(2) [OF ret linked] sint_dec
    by (simp add: queue_wf_def)
qed

lemma read_fit:
  assumes ret: "taosReadQitem h queue item = Return (h', item', c)"
    and linked: "queue_linked h queue (a # as)"
    and fit: "items_fit h queue (a # as)"
  shows "items_fit h' queue as"
proof -
  from read_effect(3) [OF ret linked] obtain q q' where q:
    "queues h queue = Some q" "queues h' queue = Some q'"
    "queue_itemSize q' = queue_itemSize q" "queue_qset q' = queue_qset q" by blast
  from fit q(1) have sz: "0 \<le> sint (queue_itemSize q)"
    and olds: "\<forall>b \<in> set as. \<exists>n. nodes h b = Some n \<and>
                length (node_item n) = nat (sint (queue_itemSize q))"
    and st: "\<forall>s. queue_qset q = Some s \<longrightarrow> qsets h s \<noteq> None"
    by (auto simp: items_fit_iff)
  have "a \<notin> set as"
    using chain_distinct [of "nodes h" _ "a # as"] queue_linkedD [OF linked] by auto
  then have same: "nodes h' b = nodes h b" if "b \<in> set as" for b
    using read_effect(4) [OF ret linked] that by auto
  have st': "qsets h' s \<noteq> None" if "queue_qset q = Some s" for s
    using read_effect(7) [OF ret linked] st that by (auto simp: dom_def)
  show ?thesis
    unfolding items_fit_iff using q(2,3,4) sz olds same st' by auto
qed

subsection \<open>First in, first out\<close>

lemma write_all_linked:
  assumes "queues h queue = Some q"
    and "queue_linked h queue ps" and "items_fit h queue ps"
    and "distinct (map snd xs)" and "\<forall>p \<in> set (map snd xs). nodes h p = None"
    and "\<forall>x \<in> set (map fst xs). length x = nat (sint (queue_itemSize q))"
  shows "\<exists>h' q'. write_all h queue xs = Return h' \<and>
           queue_linked h' queue (ps @ map snd xs) \<and>
           items_fit h' queue (ps @ map snd xs) \<and>
           payload (nodes h') (ps @ map snd xs) = payload (nodes h) ps @ map fst xs \<and>
           queues h' queue = Some q' \<and> queue_itemSize q' = queue_itemSize q"
  using assms
proof (induction xs arbitrary: h ps q)
  case Nil
  then show ?case by simp
next
  case (Cons xp xs)
  obtain x p where xp: "xp = (x, p)" by (cases xp)
  have fresh: "nodes h p = None" and len: "length x = nat (sint (queue_itemSize q))"
    using Cons.prems xp by auto
  obtain h1 where ret: "taosWriteQitem h queue x (Some p) = Return (h1, 0)"
    using write_returns [OF Cons.prems(1,2,3), of x p] len by auto
  note eff = write_effect [OF ret Cons.prems(2) fresh]
  from eff(3) Cons.prems(1) obtain q1 where q1: "queues h1 queue = Some q1"
    "queue_itemSize q1 = queue_itemSize q" by auto
  have live: "a \<in> set ps \<Longrightarrow> nodes h a \<noteq> None" for a
    using chain_live [of "nodes h" _ ps a] queue_linkedD [OF Cons.prems(2)] by auto
  have fresh1: "\<forall>p' \<in> set (map snd xs). nodes h1 p' = None"
  proof
    fix p' assume p': "p' \<in> set (map snd xs)"
    then have "nodes h p' = None" "p' \<noteq> p" using Cons.prems(4,5) xp by auto
    moreover from this live [of p'] have "p' \<notin> set ps" by auto
    ultimately show "nodes h1 p' = None" using eff(4) by simp
  qed
  have "\<exists>h' q'. write_all h1 queue xs = Return h' \<and>
           queue_linked h' queue ((ps @ [p]) @ map snd xs) \<and>
           items_fit h' queue ((ps @ [p]) @ map snd xs) \<and>
           payload (nodes h') ((ps @ [p]) @ map snd xs) =
             payload (nodes h1) (ps @ [p]) @ map fst xs \<and>
           queues h' queue = Some q' \<and> queue_itemSize q' = queue_itemSize q1"
    using Cons.prems(4,6) q1 fresh1 xp
    by (intro Cons.IH [OF q1(1) eff(2) write_fit [OF ret Cons.prems(2,3) fresh]]) auto
  moreover have "payload (nodes h1) (ps @ [p]) = payload (nodes h) ps @ [x]"
    using write_payload [OF ret Cons.prems(2) fresh Cons.prems(1)] len by simp
  ultimately show ?case
    using ret xp q1 by auto
qed

lemma memcpy_whole:
  "length dst = nat n \<Longrightarrow> length src = nat n \<Longrightarrow> 0 \<le> n \<Longrightarrow> memcpy dst src n = Some src"
  by (simp add: memcpy_def)

lemma read_n_linked:
  assumes "queues h queue = Some q"
    and "queue_linked h queue ps" and "items_fit h queue ps"
    and "length item = nat (sint (queue_itemSize q))"
  shows "\<exists>h'. read_n (length ps) h queue item =
                 Return (h', map (\<lambda>x. (x, 1)) (payload (nodes h) ps)) \<and>
              queue_linked h' queue []"
  using assms
proof (induction ps arbitrary: h item q)
  case Nil
  then show ?case by (simp add: payload_def)
next
  case (Cons a as)
  obtain h1 item1 where ret: "taosReadQitem h queue item = Return (h1, item1, 1)"
    using read_returns [OF Cons.prems(1,2,3), of item] Cons.prems(4) by auto
  note eff = read_effect [OF ret Cons.prems(2)]
  from eff(3) Cons.prems(1) obtain q1 n where q1: "queues h1 queue = Some q1"
    "queue_itemSize q1 = queue_itemSize q" "nodes h a = Some n"
    "memcpy item (node_item n) (sint (queue_itemSize q)) = Some item1" by auto
  have "length (node_item n) = nat (sint (queue_itemSize q))" "0 \<le> sint (queue_itemSize q)"
    using Cons.prems(1,3) q1(3) by (auto simp: items_fit_iff)
  then have item1: "item1 = node_item n"
    using q1(4) Cons.prems(4) by (simp add: memcpy_whole)
  have "a \<notin> set as"
    using chain_distinct [of "nodes h" _ "a # as"] queue_linkedD [OF Cons.prems(2)] by auto
  then have pl: "payload (nodes h1) as = payload (nodes h) as"
    using eff(4) by (intro payload_cong) auto
  have "\<exists>h'. read_n (length as) h1 queue item1 =
                 Return (h', map (\<lambda>x. (x, 1)) (payload (nodes h1) as)) \<and>
              queue_linked h' queue []"
    using item1 \<open>length (node_item n) = _\<close> q1(2)
    by (intro Cons.IH [OF q1(1) eff(2) read_fit [OF ret Cons.prems(2,3)]]) simp
  then show ?case
    using ret pl item1 q1(3) by (auto simp: payload_def)
qed

text \<open>
  Claim C4. Take a queue whose chain is \<open>ps\<close>, enqueue the items \<open>xs\<close> in order (each of
  the queue's item size, each allocation succeeding at a fresh address) and then dequeue
  with no enqueue in between. The dequeues return 1 and deliver first the items that were
  in the queue, in chain order, and then \<open>xs\<close> in the order of the enqueues. After that the
  queue is empty: a further dequeue returns 0 and leaves buffer and heap alone. For a
  queue that was just opened \<open>ps\<close> is empty, and the dequeues deliver exactly \<open>xs\<close>.

  The witness is the scenario of the specification: item size 4 and the values
  \<^verbatim>\<open>0x01020304\<close>, \<^verbatim>\<open>0x05060708\<close>, \<^verbatim>\<open>0x090A0B0C\<close>, written as the four bytes each occupies in
  memory on a little-endian machine.
\<close>

theorem fifo_order:
  assumes q: "queues h queue = Some q"
    and linked: "queue_linked h queue ps" and fit: "items_fit h queue ps"
    and addrs: "length new = length xs" "distinct new" "\<forall>p \<in> set new. nodes h p = None"
    and sizes: "\<forall>x \<in> set xs. length x = nat (sint (queue_itemSize q))"
    and buf: "length item = nat (sint (queue_itemSize q))"
  shows "\<exists>h1 h2. write_all h queue (zip xs new) = Return h1 \<and>
           read_n (length ps + length xs) h1 queue item =
             Return (h2, map (\<lambda>x. (x, 1)) (payload (nodes h) ps @ xs)) \<and>
           (\<forall>b. taosReadQitem h2 queue b = Return (h2, b, 0))"
proof -
  have fs: "map fst (zip xs new) = xs" and sn: "map snd (zip xs new) = new"
    using addrs(1) by simp_all
  obtain h1 q1 where w: "write_all h queue (zip xs new) = Return h1"
    and l1: "queue_linked h1 queue (ps @ new)" and f1: "items_fit h1 queue (ps @ new)"
    and p1: "payload (nodes h1) (ps @ new) = payload (nodes h) ps @ xs"
    and q1: "queues h1 queue = Some q1" "queue_itemSize q1 = queue_itemSize q"
    using write_all_linked [OF q linked fit, of "zip xs new"] addrs sizes
    unfolding fs sn by auto
  obtain h2 where r: "read_n (length (ps @ new)) h1 queue item =
        Return (h2, map (\<lambda>x. (x, 1)) (payload (nodes h1) (ps @ new)))"
    and l2: "queue_linked h2 queue []"
    using read_n_linked [OF q1(1) l1 f1] buf q1(2) by auto
  have "taosReadQitem h2 queue b = Return (h2, b, 0)" for b
    using l2 by (auto simp: queue_linked_def read_empty split: option.splits)
  with w r p1 addrs(1) show ?thesis by auto
qed

theorem fifo_order_witness:
  "\<exists>h1 h2.
      write_all fresh_queue_heap 7
        [([4, 3, 2, 1], 10), ([8, 7, 6, 5], 11), ([12, 11, 10, 9], 12)] = Return h1 \<and>
      read_n 3 h1 7 [0, 0, 0, 0] =
        Return (h2, [([4, 3, 2, 1], 1), ([8, 7, 6, 5], 1), ([12, 11, 10, 9], 1)]) \<and>
      (\<forall>b. taosReadQitem h2 7 b = Return (h2, b, 0))"
  using fifo_order [of fresh_queue_heap 7 _ "[]" "[10, 11, 12]"
      "[[4, 3, 2, 1], [8, 7, 6, 5], [12, 11, 10, 9]]" "[0, 0, 0, 0]"]
  by (simp add: fresh_queue_heap_def taosOpenQueue_def empty_heap_def queue_linked_def
        items_fit_def payload_def numeral_3_eq_3)

subsection \<open>Draining a queue into a batch view\<close>








subsection \<open>One call of the round-robin scan\<close>

declare readQitemFromQset_loop.simps [simp del]

declare readAllQitemsFromQset_loop.simps [simp del]

text \<open>The four ways a round of the loop of \<^verbatim>\<open>taosReadQitemFromQset\<close> can go.\<close>

lemma poll_exit:
  assumes "qsets h qset = Some s" and "\<not> i < sint (qset_numOfQueues s)"
  shows "readQitemFromQset_loop h qset item i vis = Return (h, item, 0, vis)"
  using assms by (subst readQitemFromQset_loop.simps) simp

lemma poll_no_queue:
  assumes "qsets h qset = Some s" and "i < sint (qset_numOfQueues s)"
    and "qset_current s = None" and "qset_head s = None"
  shows "readQitemFromQset_loop h qset item i vis = Return (h, item, 0, vis)"
proof -
  have "s\<lparr>qset_current := None\<rparr> = s" using assms(3) by simp
  then have "h\<lparr>qsets := (qsets h)(qset \<mapsto> s\<lparr>qset_current := None\<rparr>)\<rparr> = h"
    using assms(1) by (simp add: fun_upd_idem)
  with assms show ?thesis
    by (subst readQitemFromQset_loop.simps) (simp add: Let_def)
qed

lemma poll_skip:
  assumes "qsets h qset = Some s" and "i < sint (qset_numOfQueues s)"
    and "(if qset_current s = None then qset_head s else qset_current s) = Some a"
    and "queues h a = Some q" and "queue_head q = None"
  shows "readQitemFromQset_loop h qset item i vis =
           readQitemFromQset_loop
             (h\<lparr>qsets := (qsets h)(qset \<mapsto> s\<lparr>qset_current := queue_next q\<rparr>)\<rparr>)
             qset item (i + 1) (vis @ [a])"
  using assms
  by (subst readQitemFromQset_loop.simps) (auto simp: Let_def split: if_splits)

lemma poll_hit:
  assumes "qsets h qset = Some s" and "i < sint (qset_numOfQueues s)"
    and "(if qset_current s = None then qset_head s else qset_current s) = Some a"
    and "queues h a = Some q" and "queue_head q = Some p"
  shows "readQitemFromQset_loop h qset item i vis =
           (case nodes h p of
              None \<Rightarrow> Fault
            | Some n \<Rightarrow>
                (case memcpy item (node_item n) (sint (queue_itemSize q)) of
                   None \<Rightarrow> Fault
                 | Some item' \<Rightarrow>
                     Return (h\<lparr>nodes := (nodes h)(p := None),
                               queues := (queues h)(a \<mapsto>
                                 q\<lparr>queue_head := node_next n,
                                   queue_tail := (if node_next n = None then None
                                                  else queue_tail q),
                                   queue_numOfItems := queue_numOfItems q - 1\<rparr>),
                               qsets := (qsets h)(qset \<mapsto>
                                 s\<lparr>qset_current := queue_next q,
                                   qset_numOfItems := qset_numOfItems s - 1\<rparr>)\<rparr>,
                             item', 1, vis @ [a])))"
  using assms
  by (subst readQitemFromQset_loop.simps)
     (auto simp: Let_def atomic_sub_fetch_32_def split: if_splits option.splits)

lemma poll_dead:
  assumes "qsets h qset = Some s" and "i < sint (qset_numOfQueues s)"
    and "(if qset_current s = None then qset_head s else qset_current s) = Some a"
    and "queues h a = None"
  shows "readQitemFromQset_loop h qset item i vis = Fault"
  using assms
  by (subst readQitemFromQset_loop.simps) (auto simp: Let_def split: if_splits)


lemma scan_outcome_none:
  assumes "qsets h qset = Some s"
    and "scan_order (queues h) (qset_head s) (qset_current s) n = []"
  shows "scan_outcome h qset s item n [] h item 0"
proof -
  have "s\<lparr>qset_current := qset_current s, qset_numOfItems := qset_numOfItems s\<rparr> = s"
    by simp
  with assms show ?thesis by (simp add: scan_outcome_def fun_upd_idem)
qed

lemma scan_outcome_hit:
  assumes "qsets h qset = Some s"
    and "(if qset_current s = None then qset_head s else qset_current s) = Some a"
    and "queues h a = Some q" and "queue_head q = Some p" and "nodes h p = Some nd"
    and "memcpy item (node_item nd) (sint (queue_itemSize q)) = Some item'"
  shows "scan_outcome h qset s item (Suc n) [a]
           (h\<lparr>nodes := (nodes h)(p := None),
               queues := (queues h)(a \<mapsto>
                 q\<lparr>queue_head := node_next nd,
                   queue_tail := (if node_next nd = None then None else queue_tail q),
                   queue_numOfItems := queue_numOfItems q - 1\<rparr>),
               qsets := (qsets h)(qset \<mapsto>
                 s\<lparr>qset_current := queue_next q,
                   qset_numOfItems := qset_numOfItems s - 1\<rparr>)\<rparr>)
           item' 1"
  using assms by (simp add: scan_outcome_def)

lemma scan_outcome_skip:
  assumes s: "qsets h qset = Some s"
    and cur: "(if qset_current s = None then qset_head s else qset_current s) = Some a"
    and q: "queues h a = Some q" and empty: "queue_head q = None"
    and rest: "scan_outcome (h\<lparr>qsets := (qsets h)(qset \<mapsto> s\<lparr>qset_current := queue_next q\<rparr>)\<rparr>)
                 qset (s\<lparr>qset_current := queue_next q\<rparr>) item n vs h' item' c"
  shows "scan_outcome h qset s item (Suc n) (a # vs) h' item' c"
proof -
  let ?s1 = "s\<lparr>qset_current := queue_next q\<rparr>"
  let ?h1 = "h\<lparr>qsets := (qsets h)(qset \<mapsto> ?s1)\<rparr>"
  have ea: "queue_empty h a" using q empty by (simp add: queue_empty_def)
  have r1: "take (length vs) (scan_order (queues h) (qset_head s) (queue_next q) n) = vs"
    and r2: "length vs \<le> n"
    and r3: "\<forall>b \<in> set (butlast vs). queue_empty h b"
    and r4: "qalls h' = qalls h" "terrno h' = terrno h"
    and r5: "qsets h' = (qsets h)(qset \<mapsto>
         s\<lparr>qset_current :=
               (if vs = [] then queue_next q
                else case queues h (last vs) of None \<Rightarrow> None | Some q \<Rightarrow> queue_next q),
           qset_numOfItems := (if c = 1 then qset_numOfItems s - 1 else qset_numOfItems s)\<rparr>)"
    using rest by (simp_all add: scan_outcome_def queue_empty_def)
  have r6: "vs \<noteq> [] \<and>
         (\<exists>q p nd. queues h (last vs) = Some q \<and> queue_head q = Some p \<and>
            nodes h p = Some nd \<and>
            memcpy item (node_item nd) (sint (queue_itemSize q)) = Some item' \<and>
            nodes h' = (nodes h)(p := None) \<and>
            queues h' = (queues h)(last vs \<mapsto>
               q\<lparr>queue_head := node_next nd,
                 queue_tail := (if node_next nd = None then None else queue_tail q),
                 queue_numOfItems := queue_numOfItems q - 1\<rparr>))" if "c = 1"
    using rest that unfolding scan_outcome_def by (simp split del: if_split)
  have r7: "c = 0 \<and> (\<forall>a \<in> set vs. queue_empty h a) \<and>
         nodes h' = nodes h \<and> queues h' = queues h \<and> item' = item" if "c \<noteq> 1"
    using rest that unfolding scan_outcome_def by (simp add: queue_empty_def)
  have r8: "scan_order (queues h) (qset_head s) (queue_next q) n = vs" if "c \<noteq> 1"
    using rest that unfolding scan_outcome_def by simp
  have p8: "scan_order (queues h) (qset_head s) (qset_current s) (Suc n) = a # vs"
    if "c \<noteq> 1"
    using r8 [OF that] cur q by simp
  have p1: "take (length (a # vs))
                (scan_order (queues h) (qset_head s) (qset_current s) (Suc n)) = a # vs"
    using r1 cur q by simp
  have p3: "\<forall>b \<in> set (butlast (a # vs)). queue_empty h b"
    using r3 ea by simp
  have p5: "(if a # vs = [] then qset_current s
             else case queues h (last (a # vs)) of None \<Rightarrow> None | Some q \<Rightarrow> queue_next q) =
            (if vs = [] then queue_next q
             else case queues h (last vs) of None \<Rightarrow> None | Some q \<Rightarrow> queue_next q)"
    using q by simp
  show ?thesis
  proof (cases "c = 1")
    case True
    from r6 [OF True] have ne: "vs \<noteq> []" by simp
    then have "last (a # vs) = last vs" by simp
    with r6 [OF True] p1 r2 p3 r4 r5 p5 True show ?thesis
      unfolding scan_outcome_def by (simp split del: if_split)
  next
    case False
    with r7 [OF False] p8 [OF False] p1 r2 p3 r4 r5 p5 ea show ?thesis
      unfolding scan_outcome_def by (simp split del: if_split)
  qed
qed

lemma poll_loop_outcome:
  assumes "nat (sint (qset_numOfQueues s) - i) = n"
    and "qsets h qset = Some s"
    and "readQitemFromQset_loop h qset item i vis = Return (h', item', c, vis')"
  shows "\<exists>vs. vis' = vis @ vs \<and> scan_outcome h qset s item n vs h' item' c"
  using assms
proof (induction n arbitrary: h s i vis)
  case 0
  then have "\<not> i < sint (qset_numOfQueues s)" by simp
  from poll_exit [OF "0.prems"(2) this] "0.prems"(3)
  have "h' = h" "item' = item" "c = 0" "vis' = vis" by simp_all
  with scan_outcome_none [OF "0.prems"(2), of 0] show ?case by simp
next
  case (Suc n)
  then have lt: "i < sint (qset_numOfQueues s)" by simp
  note s = Suc.prems(2) and ret = Suc.prems(3)
  show ?case
  proof (cases "if qset_current s = None then qset_head s else qset_current s")
    case None
    then have "qset_current s = None" "qset_head s = None" by (auto split: if_splits)
    from poll_no_queue [OF s lt this] ret
    have "h' = h" "item' = item" "c = 0" "vis' = vis" by simp_all
    moreover have "scan_order (queues h) (qset_head s) (qset_current s) (Suc n) = []"
      using None by simp
    ultimately show ?thesis using scan_outcome_none [OF s] by simp
  next
    case (Some a)
    show ?thesis
    proof (cases "queues h a")
      case None
      from poll_dead [OF s lt Some None] ret show ?thesis by simp
    next
      case q: (Some q)
      show ?thesis
      proof (cases "queue_head q")
        case None
        let ?s1 = "s\<lparr>qset_current := queue_next q\<rparr>"
        let ?h1 = "h\<lparr>qsets := (qsets h)(qset \<mapsto> ?s1)\<rparr>"
        have "readQitemFromQset_loop ?h1 qset item (i + 1) (vis @ [a]) =
                Return (h', item', c, vis')"
          using poll_skip [OF s lt Some q None] ret by simp
        moreover have "nat (sint (qset_numOfQueues ?s1) - (i + 1)) = n"
          using Suc.prems(1) by simp
        moreover have "qsets ?h1 qset = Some ?s1" by simp
        ultimately obtain vs where vs: "vis' = (vis @ [a]) @ vs"
          "scan_outcome ?h1 qset ?s1 item n vs h' item' c"
          using Suc.IH by blast
        from scan_outcome_skip [OF s Some q None vs(2)] vs(1) show ?thesis by simp
      next
        case p: (Some p)
        from poll_hit [OF s lt Some q p, of item vis] ret
        obtain nd where nd: "nodes h p = Some nd"
          and mc: "memcpy item (node_item nd) (sint (queue_itemSize q)) = Some item'"
          and res: "h' = h\<lparr>nodes := (nodes h)(p := None),
               queues := (queues h)(a \<mapsto>
                 q\<lparr>queue_head := node_next nd,
                   queue_tail := (if node_next nd = None then None else queue_tail q),
                   queue_numOfItems := queue_numOfItems q - 1\<rparr>),
               qsets := (qsets h)(qset \<mapsto>
                 s\<lparr>qset_current := queue_next q,
                   qset_numOfItems := qset_numOfItems s - 1\<rparr>)\<rparr>"
            "c = 1" "vis' = vis @ [a]"
          by (auto split: option.splits)
        from scan_outcome_hit [OF s Some q p nd mc, of n] res show ?thesis by simp
      qed
    qed
  qed
qed

subsection \<open>Round robin over the members\<close>

lemma members_as_chain:
  "members qs p ms =
     chain (\<lambda>a. map_option (\<lambda>q. \<lparr>node_next = queue_next q, node_item = []\<rparr>) (qs a)) p ms"
  by (induction ms arbitrary: p) (auto split: option.splits)

lemma members_distinct: "members qs p ms \<Longrightarrow> distinct ms"
  unfolding members_as_chain by (rule chain_distinct)

lemma members_cong:
  "(\<And>a. a \<in> set ms \<Longrightarrow> map_option queue_next (qs' a) = map_option queue_next (qs a)) \<Longrightarrow>
   members qs' p ms = members qs p ms"
proof (induction ms arbitrary: p)
  case Nil
  show ?case by simp
next
  case (Cons a as)
  have "map_option queue_next (qs' a) = map_option queue_next (qs a)"
    using Cons.prems [of a] by simp
  moreover have "members qs' r as = members qs r as" for r
    using Cons.prems by (intro Cons.IH) simp
  ultimately show ?case
    by (cases "qs' a"; cases "qs a") auto
qed

lemma members_head: "members qs p ms \<Longrightarrow> ms \<noteq> [] \<Longrightarrow> p = Some (ms ! 0)"
  by (cases ms) auto

lemma members_nth:
  "members qs p ms \<Longrightarrow> j < length ms \<Longrightarrow>
   \<exists>q. qs (ms ! j) = Some q \<and>
       queue_next q = (if Suc j < length ms then Some (ms ! Suc j) else None)"
proof (induction ms arbitrary: p j)
  case Nil
  then show ?case by simp
next
  case (Cons a as)
  then obtain q where q: "qs a = Some q" and rest: "members qs (queue_next q) as"
    by (auto split: option.splits)
  show ?case
  proof (cases j)
    case 0
    with q rest show ?thesis by (cases as) auto
  next
    case (Suc i)
    with Cons.prems have "i < length as" by simp
    from Cons.IH [OF rest this] Suc show ?thesis by auto
  qed
qed

lemma memcpy_length: "memcpy dst src n = Some r \<Longrightarrow> length r = length dst"
  by (auto simp: memcpy_def split: if_splits)

lemma poll_ready:
  assumes s: "qsets h qset = Some s" and pos: "0 < sint (qset_numOfQueues s)"
    and cur: "(if qset_current s = None then qset_head s else qset_current s) = Some a"
    and ready: "queue_ready h (length item) a"
  shows "\<exists>q p nd item'.
           queues h a = Some q \<and> queue_head q = Some p \<and> nodes h p = Some nd \<and>
           length item' = length item \<and>
           taosReadQitemFromQset h qset item =
             Return (h\<lparr>nodes := (nodes h)(p := None),
                       queues := (queues h)(a \<mapsto>
                         q\<lparr>queue_head := node_next nd,
                           queue_tail := (if node_next nd = None then None else queue_tail q),
                           queue_numOfItems := queue_numOfItems q - 1\<rparr>),
                       qsets := (qsets h)(qset \<mapsto>
                         s\<lparr>qset_current := queue_next q,
                           qset_numOfItems := qset_numOfItems s - 1\<rparr>)\<rparr>,
                     item', 1, [a])"
proof -
  from ready obtain q p nd where q: "queues h a = Some q" and p: "queue_head q = Some p"
    and nd: "nodes h p = Some nd" and sz: "0 \<le> sint (queue_itemSize q)"
    "nat (sint (queue_itemSize q)) \<le> length (node_item nd)"
    "nat (sint (queue_itemSize q)) \<le> length item"
    by (auto simp: queue_ready_def split: option.splits)
  from sz obtain item' where mc:
    "memcpy item (node_item nd) (sint (queue_itemSize q)) = Some item'"
    by (auto simp: memcpy_def)
  from poll_hit [OF s pos cur q p, of item "[]"] nd mc memcpy_length [OF mc] q p
  show ?thesis by (simp add: taosReadQitemFromQset_def)
qed


lemma poll_n_pending:
  assumes "qsets h qset = Some s"
    and "members (queues h) (qset_head s) ms" and "ms \<noteq> []"
    and "sint (qset_numOfQueues s) = int (length ms)"
    and "(if qset_current s = None then qset_head s else qset_current s) =
           Some (ms ! (j mod length ms))"
    and "us = map (\<lambda>i. ms ! ((j + i) mod length ms)) [0..<n]"
    and "\<forall>a \<in> set us. queue_ready h (length item) a"
    and "distinct (map (head_node h) us)"
  shows "\<exists>h'. poll_n n h qset item = Return (h', map (\<lambda>a. [a]) us)"
  using assms
proof (induction n arbitrary: h s j item us)
  case 0
  then show ?case by simp
next
  case (Suc n)
  let ?k = "length ms"
  let ?a = "ms ! (j mod ?k)"
  define us' where "us' = map (\<lambda>i. ms ! ((Suc j + i) mod ?k)) [0..<n]"
  have us: "us = ?a # us'"
    using Suc.prems(6) by (simp add: us'_def map_upt_Suc del: upt_Suc)
  have kpos: "0 < ?k" using Suc.prems(3) by simp
  then have jk: "j mod ?k < ?k" by simp
  have pos: "0 < sint (qset_numOfQueues s)" using Suc.prems(4) kpos by simp
  have ready_a: "queue_ready h (length item) ?a" using Suc.prems(7) us by simp
  from poll_ready [OF Suc.prems(1) pos Suc.prems(5) ready_a]
  obtain q p nd item' where q: "queues h ?a = Some q" and p: "queue_head q = Some p"
    and nd: "nodes h p = Some nd" and len: "length item' = length item"
    and poll: "taosReadQitemFromQset h qset item =
             Return (h\<lparr>nodes := (nodes h)(p := None),
                       queues := (queues h)(?a \<mapsto>
                         q\<lparr>queue_head := node_next nd,
                           queue_tail := (if node_next nd = None then None else queue_tail q),
                           queue_numOfItems := queue_numOfItems q - 1\<rparr>),
                       qsets := (qsets h)(qset \<mapsto>
                         s\<lparr>qset_current := queue_next q,
                           qset_numOfItems := qset_numOfItems s - 1\<rparr>)\<rparr>,
                     item', 1, [?a])" by blast
  define h1 where "h1 = h\<lparr>nodes := (nodes h)(p := None),
                       queues := (queues h)(?a \<mapsto>
                         q\<lparr>queue_head := node_next nd,
                           queue_tail := (if node_next nd = None then None else queue_tail q),
                           queue_numOfItems := queue_numOfItems q - 1\<rparr>),
                       qsets := (qsets h)(qset \<mapsto>
                         s\<lparr>qset_current := queue_next q,
                           qset_numOfItems := qset_numOfItems s - 1\<rparr>)\<rparr>"
  define s1 where "s1 = s\<lparr>qset_current := queue_next q, qset_numOfItems := qset_numOfItems s - 1\<rparr>"
  have s1: "qsets h1 qset = Some s1" by (simp add: h1_def s1_def)
  have "map_option queue_next (queues h1 b) = map_option queue_next (queues h b)" for b
    using q by (simp add: h1_def)
  then have mem1: "members (queues h1) (qset_head s1) ms"
    using Suc.prems(2) members_cong [of ms "queues h1" "queues h"] by (simp add: s1_def)
  have cnt1: "sint (qset_numOfQueues s1) = int ?k" using Suc.prems(4) by (simp add: s1_def)
  have nxt: "queue_next q = (if Suc (j mod ?k) < ?k then Some (ms ! Suc (j mod ?k)) else None)"
    using members_nth [OF Suc.prems(2) jk] q by simp
  have hd: "qset_head s = Some (ms ! 0)"
    using members_head [OF Suc.prems(2,3)] .
  have cur1: "(if qset_current s1 = None then qset_head s1 else qset_current s1) =
           Some (ms ! (Suc j mod ?k))"
  proof (cases "Suc (j mod ?k) < ?k")
    case True
    then have "Suc j mod ?k = Suc (j mod ?k)" by (simp add: mod_Suc)
    with True nxt show ?thesis by (simp add: s1_def)
  next
    case False
    then have "Suc (j mod ?k) = ?k" using jk by simp
    then have "Suc j mod ?k = 0" by (simp add: mod_Suc)
    with False nxt hd show ?thesis by (simp add: s1_def)
  qed
  have hda: "head_node h ?a = Some p" using q p by (simp add: head_node_def)
  have "head_node h ?a \<notin> head_node h ` set us'"
    using Suc.prems(8) unfolding us by simp
  then have other: "b \<noteq> ?a \<and> head_node h b \<noteq> Some p" if "b \<in> set us'" for b
    using that hda by (metis imageI)
  have same_head: "head_node h1 b = head_node h b" if "b \<in> set us'" for b
    using other [OF that] by (simp add: head_node_def h1_def)
  have ready1: "\<forall>b \<in> set us'. queue_ready h1 (length item') b"
  proof
    fix b assume b: "b \<in> set us'"
    then have rb: "queue_ready h (length item) b" using Suc.prems(7) us by simp
    have qb: "queues h1 b = queues h b" using other [OF b] by (simp add: h1_def)
    from rb obtain qb' pb where "queues h b = Some qb'" "queue_head qb' = Some pb"
      by (auto simp: queue_ready_def split: option.splits)
    moreover from this other [OF b] have "pb \<noteq> p" by (simp add: head_node_def)
    then have "nodes h1 pb = nodes h pb" by (simp add: h1_def)
    ultimately show "queue_ready h1 (length item') b"
      using rb qb len by (simp add: queue_ready_def)
  qed
  have eq: "map (head_node h1) us' = map (head_node h) us'"
    using same_head by simp
  have "distinct (map (head_node h) us')"
    using Suc.prems(8) us by simp
  then have heads1: "distinct (map (head_node h1) us')"
    by (simp only: eq)
  from Suc.IH [OF s1 mem1 Suc.prems(3) cnt1 cur1 us'_def ready1 heads1]
  obtain h' where "poll_n n h1 qset item' = Return (h', map (\<lambda>a. [a]) us')" by blast
  with poll us show ?case by (simp add: h1_def)
qed

lemma scan_positions_rotate:
  assumes "j < length ms"
  shows "map (\<lambda>i. ms ! ((j + i) mod length ms)) [0..<length ms] = rotate j ms"
  by (rule nth_equalityI) (simp_all add: nth_rotate)

lemma poll_n_fair:
  assumes s: "qsets h qset = Some s"
    and mem: "members (queues h) (qset_head s) ms" and ne: "ms \<noteq> []"
    and cnt: "sint (qset_numOfQueues s) = int (length ms)"
    and cur: "qset_current s = None \<or> (\<exists>a \<in> set ms. qset_current s = Some a)"
    and ready: "\<forall>a \<in> set ms. queue_ready h (length item) a"
    and heads: "distinct (map (head_node h) ms)"
  shows "\<exists>h' j. j < length ms \<and>
           poll_n (length ms) h qset item = Return (h', map (\<lambda>a. [a]) (rotate j ms))"
proof -
  have hd: "qset_head s = Some (ms ! 0)" using members_head [OF mem ne] .
  obtain j where j: "j < length ms"
    and tgt: "(if qset_current s = None then qset_head s else qset_current s) = Some (ms ! j)"
  proof (cases "qset_current s")
    case None
    with hd ne that [of 0] show ?thesis by simp
  next
    case (Some a)
    with cur have "a \<in> set ms" by auto
    then obtain j where "j < length ms" "ms ! j = a" by (auto simp: in_set_conv_nth)
    with Some that [of j] show ?thesis by simp
  qed
  have tgt': "(if qset_current s = None then qset_head s else qset_current s) =
                Some (ms ! (j mod length ms))"
    using tgt j by simp
  have r: "\<forall>a \<in> set (rotate j ms). queue_ready h (length item) a"
    using ready by simp
  have d: "distinct (map (head_node h) (rotate j ms))"
    using heads by (simp add: rotate_map [symmetric])
  from poll_n_pending [OF s mem ne cnt tgt' scan_positions_rotate [OF j, symmetric] r d] j
  show ?thesis by blast
qed

text \<open>
  Every call of \<^verbatim>\<open>taosReadQitemFromQset\<close> that returns satisfies \<open>scan_outcome\<close> with
  the budget \<^verbatim>\<open>numOfQueues\<close>. This fixes the list of visited queues: it is the scan order
  up to and including the first queue that is not empty, or the whole scan order when
  all are empty.
\<close>

lemma poll_outcome:
  assumes "qsets h qset = Some s"
    and "taosReadQitemFromQset h qset item = Return (h', item', c, vs)"
  shows "scan_outcome h qset s item (nat (sint (qset_numOfQueues s))) vs h' item' c"
proof -
  from assms(2) have "readQitemFromQset_loop h qset item 0 [] = Return (h', item', c, vs)"
    by (simp add: taosReadQitemFromQset_def)
  from poll_loop_outcome [OF _ assms(1) this] show ?thesis by simp
qed

text \<open>
  On \<open>skip_heap\<close> the first queue in cursor order is empty: the call passes it, takes the
  item of the second queue, and leaves the cursor behind the second queue.
\<close>

lemma poll_passes_empty_queue:
  "taosReadQitemFromQset skip_heap 20 [0, 0, 0, 0] =
     Return (skip_heap\<lparr>
        nodes := Map.empty,
        queues := (queues skip_heap)(7 \<mapsto>
          \<lparr>queue_itemSize = 4, queue_numOfItems = 0, queue_head = None,
           queue_tail = None, queue_next = None, queue_qset = Some 20\<rparr>),
        qsets := [20 \<mapsto> \<lparr>qset_head = Some 8, qset_current = None, qset_numOfQueues = 2,
                          qset_numOfItems = 0\<rparr>]\<rparr>,
       [4, 3, 2, 1], 1, [8, 7])"
  by (simp add: taosReadQitemFromQset_def readQitemFromQset_loop.simps skip_heap_def
        memcpy_def atomic_sub_fetch_32_def Let_def)

text \<open>
  Claim C6 says how one poll scans, and concludes that with \<open>k\<close> member queues, all of
  them non-empty, \<open>k\<close> consecutive polls visit each of the \<open>k\<close> members exactly once.
  The scan of one call is as claimed (\<open>poll_outcome\<close>), and the conclusion holds as long
  as the cursor is \<^verbatim>\<open>NULL\<close> or at a member (\<open>poll_n_fair\<close>). But \<^verbatim>\<open>taosRemoveFromQset\<close>
  leaves the cursor at a queue it removes from the head of the list, and then the
  conclusion fails. After \<open>stale_cursor_run\<close> the set has the single member 7, which is not
  empty, its queue count is 1, and its cursor is at the removed queue 8. The one poll that
  should visit queue 7 visits queue 8 and delivers the item of queue 8.
\<close>

theorem poll_visits_removed_queue:
  "\<exists>h s h'. stale_cursor_run = Return h \<and> qsets h 20 = Some s \<and>
      members (queues h) (qset_head s) [7] \<and> qset_numOfQueues s = 1 \<and>
      qset_current s = Some 8 \<and> \<not> queue_empty h 7 \<and>
      taosReadQitemFromQset h 20 [0, 0, 0, 0] = Return (h', [2, 2, 2, 2], 1, [8])"
  by (simp add: stale_cursor_run_def and_then_def taosOpenQset_def taosOpenQueue_def
        empty_heap_def taosAddIntoQset_def taosWriteQitem_def memcpy_def
        atomic_add_fetch_32_def atomic_sub_fetch_32_def taosRemoveFromQset_def
        taosReadQitemFromQset_def readQitemFromQset_loop.simps queue_empty_def Let_def)

subsection \<open>The invariant of the queues\<close>

lemma queue_wf_head_tail_count:
  assumes "queue_wf h a ps" and "queues h a = Some q"
  shows "head_tail_count q"
proof -
  from assms have ch: "chain (nodes h) (queue_head q) ps"
    and tl: "queue_tail q = (if ps = [] then None else Some (last ps))"
    and cnt: "sint (queue_numOfItems q) = int (length ps)"
    by (auto simp: queue_wf_def queue_linked_def)
  have "(queue_head q = None) = (ps = [])" using ch by (cases ps) auto
  moreover have "(queue_tail q = None) = (ps = [])" using tl by simp
  moreover have "(queue_numOfItems q = 0) = (ps = [])"
    using cnt sint_zero_iff [of "queue_numOfItems q"] by auto
  ultimately show ?thesis by (simp add: head_tail_count_def)
qed

lemma queue_wf_frame:
  assumes "queues h' b = queues h b" and "\<And>a. a \<in> set ps \<Longrightarrow> nodes h' a = nodes h a"
  shows "queue_wf h' b ps = queue_wf h b ps"
proof -
  have "chain (nodes h') p ps = chain (nodes h) p ps" for p
    using assms(2) by (rule chain_cong)
  with assms(1) show ?thesis
    by (cases "queues h b") (simp_all add: queue_wf_def queue_linked_def)
qed

lemma queues_inv_cong:
  assumes "nodes h' = nodes h" and "queues h' = queues h"
  shows "queues_inv h' Q ch = queues_inv h Q ch"
proof -
  have "queue_wf h' b ps = queue_wf h b ps" for b ps
    using assms by (intro queue_wf_frame) simp_all
  then show ?thesis by (simp add: queues_inv_def assms(2))
qed

text \<open>One queue changes, together with nodes of its own chain or nodes that were not live.\<close>

lemma queues_inv_update:
  assumes inv: "queues_inv h Q ch"
    and a: "a \<in> set Q"
    and wf: "queue_wf h' a ps"
    and others: "\<And>b. b \<noteq> a \<Longrightarrow> queues h' b = queues h b"
    and same: "\<And>x. x \<notin> set (ch a) \<Longrightarrow> nodes h x \<noteq> None \<Longrightarrow> nodes h' x = nodes h x"
    and sub: "\<And>x. x \<in> set ps \<Longrightarrow> x \<in> set (ch a) \<or> nodes h x = None"
  shows "queues_inv h' Q (ch(a := ps))"
proof -
  from inv have dom: "dom (queues h) = set Q"
    and wfs: "\<And>b. b \<in> set Q \<Longrightarrow> queue_wf h b (ch b)"
    and dis: "\<And>b c. b \<in> set Q \<Longrightarrow> c \<in> set Q \<Longrightarrow> b \<noteq> c \<Longrightarrow> set (ch b) \<inter> set (ch c) = {}"
    by (auto simp: queues_inv_def)
  have live: "nodes h x \<noteq> None" if "b \<in> set Q" "x \<in> set (ch b)" for b x
    using wfs [OF that(1)] that(2) chain_live [of "nodes h" _ "ch b" x]
    by (auto simp: queue_wf_def queue_linked_def split: option.splits)
  have a_live: "queues h' a \<noteq> None"
    using wf by (auto simp: queue_wf_def queue_linked_def split: option.splits)
  have "dom (queues h') = set Q"
  proof (intro set_eqI iffI)
    fix b assume b: "b \<in> dom (queues h')"
    show "b \<in> set Q"
    proof (cases "b = a")
      case True
      with a show ?thesis by simp
    next
      case False
      with others [of b] b have "b \<in> dom (queues h)" by (simp add: dom_def)
      with dom show ?thesis by simp
    qed
  next
    fix b assume b: "b \<in> set Q"
    show "b \<in> dom (queues h')"
    proof (cases "b = a")
      case True
      with a_live show ?thesis by (simp add: dom_def)
    next
      case False
      from b dom have "b \<in> dom (queues h)" by simp
      with others [OF False] show ?thesis by (simp add: dom_def)
    qed
  qed
  moreover have "queue_wf h' b ((ch(a := ps)) b)" if b: "b \<in> set Q" for b
  proof (cases "b = a")
    case True
    with wf show ?thesis by simp
  next
    case False
    have "nodes h' x = nodes h x" if x: "x \<in> set (ch b)" for x
    proof -
      have "x \<notin> set (ch a)" using dis [OF b a False] x by auto
      then show ?thesis using live [OF b x] by (rule same)
    qed
    then have "queue_wf h' b (ch b) = queue_wf h b (ch b)"
      using others [OF False] by (intro queue_wf_frame) simp_all
    with wfs [OF b] False show ?thesis by simp
  qed
  moreover have "set ((ch(a := ps)) b) \<inter> set ((ch(a := ps)) c) = {}"
    if "b \<in> set Q" "c \<in> set Q" "b \<noteq> c" for b c
  proof -
    have ps_other: "set ps \<inter> set (ch d) = {}" if d: "d \<in> set Q" "d \<noteq> a" for d
    proof -
      have "x \<notin> set (ch d)" if x: "x \<in> set ps" for x
        using sub [OF x] dis [OF a d(1)] d(2) live [OF d(1), of x] by auto
      then show ?thesis by auto
    qed
    show ?thesis
    proof (cases "b = a")
      case True
      with that ps_other [of c] show ?thesis by simp
    next
      case False
      show ?thesis
      proof (cases "c = a")
        case True
        with that ps_other [of b] show ?thesis by (simp add: Int_commute [of "set ps"])
      next
        case False
        with \<open>b \<noteq> a\<close> dis [OF that] show ?thesis by simp
      qed
    qed
  qed
  ultimately show ?thesis by (simp add: queues_inv_def)
qed


lemma queues_inv_dom: "queues_inv h Q ch \<Longrightarrow> queues h a = Some q \<Longrightarrow> a \<in> set Q"
  by (auto simp: queues_inv_def)

lemma queues_inv_wf: "queues_inv h Q ch \<Longrightarrow> a \<in> set Q \<Longrightarrow> queue_wf h a (ch a)"
  by (simp add: queues_inv_def)

lemma inv_open:
  assumes inv: "queues_inv h Q ch" and fresh: "a \<notin> set Q"
  shows "queues_inv (fst (taosOpenQueue h itemSize (Some a))) (a # Q) (ch(a := []))"
proof -
  let ?h' = "fst (taosOpenQueue h itemSize (Some a))"
  have nodes: "nodes ?h' = nodes h" and qa: "queue_wf ?h' a []"
    and qb: "\<And>b. b \<noteq> a \<Longrightarrow> queues ?h' b = queues h b"
    and dom: "dom (queues ?h') = insert a (dom (queues h))"
    by (auto simp: taosOpenQueue_def queue_wf_def queue_linked_def)
  have "queue_wf ?h' b (ch b)" if "b \<in> set Q" for b
  proof -
    have "b \<noteq> a" using that fresh by auto
    then have "queue_wf ?h' b (ch b) = queue_wf h b (ch b)"
      using qb nodes by (intro queue_wf_frame) simp_all
    with queues_inv_wf [OF inv that] show ?thesis by simp
  qed
  with inv qa dom fresh show ?thesis
    by (auto simp: queues_inv_def)
qed

lemma inv_write:
  assumes inv: "queues_inv h Q ch"
    and ret: "taosWriteQitem h a item alloc = Return (h', c)"
    and fresh: "\<And>p. alloc = Some p \<Longrightarrow> nodes h p = None"
    and room: "length (ch a) < 2 ^ 31 - 1"
  shows "queues_inv h' Q (case alloc of None \<Rightarrow> ch | Some p \<Rightarrow> ch(a := ch a @ [p]))"
proof -
  from ret obtain q where q: "queues h a = Some q"
    by (auto simp: taosWriteQitem_def split: option.splits)
  have a: "a \<in> set Q" using queues_inv_dom [OF inv q] .
  have wf: "queue_wf h a (ch a)" using queues_inv_wf [OF inv a] .
  then have linked: "queue_linked h a (ch a)" by (simp add: queue_wf_def)
  show ?thesis
  proof (cases alloc)
    case None
    with ret q have "nodes h' = nodes h" "queues h' = queues h"
      by (auto simp: taosWriteQitem_def)
    from queues_inv_cong [OF this] inv None show ?thesis by simp
  next
    case (Some p)
    have fp: "nodes h p = None" using fresh Some by simp
    note ret' = ret [unfolded Some]
    have "queues_inv h' Q (ch(a := ch a @ [p]))"
    proof (rule queues_inv_update [OF inv a])
      show "queue_wf h' a (ch a @ [p])" using write_wf [OF ret' wf fp room] .
      show "queues h' b = queues h b" if "b \<noteq> a" for b
        using write_effect(6) [OF ret' linked fp that] .
      show "nodes h' x = nodes h x" if "x \<notin> set (ch a)" "nodes h x \<noteq> None" for x
      proof -
        have "x \<noteq> p" using that(2) fp by auto
        then show ?thesis using that(1) by (rule write_effect(4) [OF ret' linked fp])
      qed
      show "x \<in> set (ch a) \<or> nodes h x = None" if "x \<in> set (ch a @ [p])" for x
        using that fp by auto
    qed
    with Some show ?thesis by simp
  qed
qed

lemma inv_read:
  assumes inv: "queues_inv h Q ch"
    and ret: "taosReadQitem h a item = Return (h', item', c)"
  shows "queues_inv h' Q (ch(a := tl (ch a)))"
proof -
  from ret obtain q where q: "queues h a = Some q"
    by (auto simp: taosReadQitem_def split: option.splits)
  have a: "a \<in> set Q" using queues_inv_dom [OF inv q] .
  have wf: "queue_wf h a (ch a)" using queues_inv_wf [OF inv a] .
  show ?thesis
  proof (cases "ch a")
    case Nil
    with wf q have "queue_head q = None" by (simp add: queue_wf_def queue_linked_def)
    with read_empty [OF q this] ret have "h' = h" by simp
    moreover have "ch(a := tl (ch a)) = ch" using Nil by (simp add: fun_upd_idem)
    ultimately show ?thesis using inv by simp
  next
    case (Cons p ps)
    with wf have wf': "queue_wf h a (p # ps)" by simp
    then have linked: "queue_linked h a (p # ps)" by (simp add: queue_wf_def)
    have "queues_inv h' Q (ch(a := ps))"
    proof (rule queues_inv_update [OF inv a])
      show "queue_wf h' a ps" using read_wf [OF ret wf'] .
      show "queues h' b = queues h b" if "b \<noteq> a" for b
        using read_effect(5) [OF ret linked that] .
      show "nodes h' x = nodes h x" if "x \<notin> set (ch a)" "nodes h x \<noteq> None" for x
        using read_effect(4) [OF ret linked] that(1) Cons by auto
      show "x \<in> set (ch a) \<or> nodes h x = None" if "x \<in> set ps" for x
        using that Cons by simp
    qed
    with Cons show ?thesis by simp
  qed
qed

lemma wf_emptied:
  assumes "queues h' a = Some (q\<lparr>queue_head := None, queue_tail := None, queue_numOfItems := 0\<rparr>)"
  shows "queue_wf h' a []"
  using assms by (simp add: queue_wf_def queue_linked_def)

lemma inv_drain:
  assumes inv: "queues_inv h Q ch"
    and ret: "taosReadAllQitems h a alloc = Return (h', res, c)"
  shows "queues_inv h' Q (case res of None \<Rightarrow> ch | Some new \<Rightarrow> ch(a := []))"
proof -
  from ret obtain q where q: "queues h a = Some q"
    by (auto simp: taosReadAllQitems_def split: option.splits)
  have a: "a \<in> set Q" using queues_inv_dom [OF inv q] .
  show ?thesis
  proof (cases res)
    case None
    with ret q have "nodes h' = nodes h" "queues h' = queues h"
      by (auto simp: taosReadAllQitems_def Let_def atomic_sub_fetch_32_def
               split: option.splits)
    from queues_inv_cong [OF this] inv None show ?thesis by simp
  next
    case (Some new)
    with ret q have n: "nodes h' = nodes h"
      and qs: "queues h' = (queues h)(a \<mapsto>
                 q\<lparr>queue_head := None, queue_tail := None, queue_numOfItems := 0\<rparr>)"
      by (auto simp: taosReadAllQitems_def Let_def atomic_sub_fetch_32_def
               split: option.splits)
    have "queues_inv h' Q (ch(a := []))"
    proof (rule queues_inv_update [OF inv a])
      show "queue_wf h' a []" by (rule wf_emptied [of h' a q]) (simp add: qs)
    qed (simp_all add: n qs)
    with Some show ?thesis by simp
  qed
qed

lemma wf_after_dequeue:
  assumes wf: "queue_wf h a (p # ps)" and q: "queues h a = Some q"
    and nd: "nodes h p = Some nd"
    and n': "nodes h' = (nodes h)(p := None)"
    and q': "queues h' a = Some (q\<lparr>queue_head := node_next nd,
                 queue_tail := (if node_next nd = None then None else queue_tail q),
                 queue_numOfItems := queue_numOfItems q - 1\<rparr>)"
  shows "queue_wf h' a ps"
proof -
  from wf q have ch: "chain (nodes h) (queue_head q) (p # ps)"
    and tl: "queue_tail q = Some (last (p # ps))"
    and cnt: "sint (queue_numOfItems q) = int (Suc (length ps))"
    by (auto simp: queue_wf_def queue_linked_def)
  from ch nd have rest: "chain (nodes h) (node_next nd) ps" by simp
  have "p \<notin> set ps" using chain_distinct [OF ch] by simp
  then have rest': "chain (nodes h') (node_next nd) ps"
    using rest by (simp add: n' chain_upd_other)
  have nx: "(node_next nd = None) = (ps = [])" using rest by (cases ps) auto
  from rest' nx tl sint_dec [OF cnt] q' show ?thesis
    by (simp add: queue_wf_def queue_linked_def)
qed

lemma inv_poll:
  assumes inv: "queues_inv h Q ch"
    and ret: "taosReadQitemFromQset h qset item = Return (h', item', c, vs)"
  shows "queues_inv h' Q (if c = 1 then ch(last vs := tl (ch (last vs))) else ch)"
proof -
  from ret obtain s where s: "qsets h qset = Some s"
    by (subst (asm) taosReadQitemFromQset_def, subst (asm) readQitemFromQset_loop.simps)
       (auto split: option.splits)
  from ret have "readQitemFromQset_loop h qset item 0 [] = Return (h', item', c, vs)"
    by (simp add: taosReadQitemFromQset_def)
  from poll_loop_outcome [OF refl s this]
  have out: "scan_outcome h qset s item (nat (sint (qset_numOfQueues s) - 0)) vs h' item' c"
    by simp
  show ?thesis
  proof (cases "c = 1")
    case False
    with out have "nodes h' = nodes h" "queues h' = queues h"
      by (simp_all add: scan_outcome_def)
    from queues_inv_cong [OF this] inv False show ?thesis by simp
  next
    case True
    with out obtain q p nd where q: "queues h (last vs) = Some q"
      and p: "queue_head q = Some p" and nd: "nodes h p = Some nd"
      and n': "nodes h' = (nodes h)(p := None)"
      and qs': "queues h' = (queues h)(last vs \<mapsto>
               q\<lparr>queue_head := node_next nd,
                 queue_tail := (if node_next nd = None then None else queue_tail q),
                 queue_numOfItems := queue_numOfItems q - 1\<rparr>)"
      unfolding scan_outcome_def by (auto split del: if_split)
    let ?a = "last vs"
    have a: "?a \<in> set Q" using queues_inv_dom [OF inv q] .
    have wf: "queue_wf h ?a (ch ?a)" using queues_inv_wf [OF inv a] .
    with q p obtain ps where ch: "ch ?a = p # ps"
      by (cases "ch ?a") (auto simp: queue_wf_def queue_linked_def)
    have "queues_inv h' Q (ch(?a := ps))"
    proof (rule queues_inv_update [OF inv a])
      show "queue_wf h' ?a ps"
        by (rule wf_after_dequeue [OF wf [unfolded ch] q nd n']) (simp add: qs')
      show "nodes h' x = nodes h x" if "x \<notin> set (ch ?a)" "nodes h x \<noteq> None" for x
        using that(1) ch by (simp add: n')
    qed (simp_all add: qs' ch)
    with True ch show ?thesis by simp
  qed
qed


lemma drain_exit:
  assumes "qsets h qset = Some s" and "\<not> i < sint (qset_numOfQueues s)"
  shows "readAllQitemsFromQset_loop h qset alloc i qall = Return (h, qall, 0)"
  using assms by (subst readAllQitemsFromQset_loop.simps) simp

lemma drain_no_queue:
  assumes "qsets h qset = Some s" and "i < sint (qset_numOfQueues s)"
    and "qset_current s = None" and "qset_head s = None"
  shows "readAllQitemsFromQset_loop h qset alloc i qall = Return (h, qall, 0)"
proof -
  have "s\<lparr>qset_current := None\<rparr> = s" using assms(3) by simp
  then have "h\<lparr>qsets := (qsets h)(qset \<mapsto> s\<lparr>qset_current := None\<rparr>)\<rparr> = h"
    using assms(1) by (simp add: fun_upd_idem)
  with assms show ?thesis
    by (subst readAllQitemsFromQset_loop.simps) (simp add: Let_def)
qed

lemma drain_dead:
  assumes "qsets h qset = Some s" and "i < sint (qset_numOfQueues s)"
    and "(if qset_current s = None then qset_head s else qset_current s) = Some a"
    and "queues h a = None"
  shows "readAllQitemsFromQset_loop h qset alloc i qall = Fault"
  using assms
  by (subst readAllQitemsFromQset_loop.simps) (auto simp: Let_def split: if_splits)

lemma drain_skip:
  assumes "qsets h qset = Some s" and "i < sint (qset_numOfQueues s)"
    and "(if qset_current s = None then qset_head s else qset_current s) = Some a"
    and "queues h a = Some q" and "queue_head q = None"
  shows "readAllQitemsFromQset_loop h qset alloc i qall =
           readAllQitemsFromQset_loop
             (h\<lparr>qsets := (qsets h)(qset \<mapsto> s\<lparr>qset_current := queue_next q\<rparr>)\<rparr>)
             qset alloc (i + 1) qall"
  using assms
  by (subst readAllQitemsFromQset_loop.simps) (auto simp: Let_def split: if_splits)

lemma drain_hit:
  assumes "qsets h qset = Some s" and "i < sint (qset_numOfQueues s)"
    and "(if qset_current s = None then qset_head s else qset_current s) = Some a"
    and "queues h a = Some q" and "queue_head q = Some p"
  shows "readAllQitemsFromQset_loop h qset alloc i qall =
           (case alloc i of
              None \<Rightarrow>
                Return (h\<lparr>qsets := (qsets h)(qset \<mapsto> s\<lparr>qset_current := queue_next q\<rparr>),
                          terrno := TSDB_CODE_NO_RESOURCE\<rparr>, None, - 1)
            | Some new \<Rightarrow>
                let h4 = h\<lparr>qalls := (qalls h)(new \<mapsto>
                             \<lparr>qall_current = Some p, qall_start = Some p,
                              qall_itemSize = queue_itemSize q,
                              qall_numOfItems = queue_numOfItems q\<rparr>),
                           queues := (queues h)(a \<mapsto>
                             q\<lparr>queue_head := None, queue_tail := None,
                               queue_numOfItems := 0\<rparr>),
                           qsets := (qsets h)(qset \<mapsto>
                             s\<lparr>qset_current := queue_next q,
                               qset_numOfItems := qset_numOfItems s - queue_numOfItems q\<rparr>)\<rparr>
                in if sint (queue_numOfItems q) \<noteq> 0
                   then Return (h4, Some new, sint (queue_numOfItems q))
                   else readAllQitemsFromQset_loop h4 qset alloc (i + 1) (Some new))"
  using assms
  by (subst readAllQitemsFromQset_loop.simps)
     (auto simp: Let_def atomic_sub_fetch_32_def split: if_splits option.splits)

lemma inv_drain_loop:
  assumes "nat (sint (qset_numOfQueues s) - i) = n"
    and "qsets h qset = Some s"
    and "queues_inv h Q ch"
    and "readAllQitemsFromQset_loop h qset alloc i qall = Return (h', res, c)"
  shows "\<exists>ch'. queues_inv h' Q ch'"
  using assms
proof (induction n arbitrary: h s i qall ch)
  case 0
  then have "\<not> i < sint (qset_numOfQueues s)" by simp
  from drain_exit [OF "0.prems"(2) this] "0.prems"(3,4) show ?case by auto
next
  case (Suc n)
  then have lt: "i < sint (qset_numOfQueues s)" by simp
  note s = Suc.prems(2) and inv = Suc.prems(3) and ret = Suc.prems(4)
  show ?case
  proof (cases "if qset_current s = None then qset_head s else qset_current s")
    case None
    then have "qset_current s = None" "qset_head s = None" by (auto split: if_splits)
    from drain_no_queue [OF s lt this] ret inv show ?thesis by auto
  next
    case (Some a)
    show ?thesis
    proof (cases "queues h a")
      case None
      from drain_dead [OF s lt Some None] ret show ?thesis by simp
    next
      case q: (Some q)
      have a: "a \<in> set Q" using queues_inv_dom [OF inv q] .
      show ?thesis
      proof (cases "queue_head q")
        case None
        let ?s1 = "s\<lparr>qset_current := queue_next q\<rparr>"
        let ?h1 = "h\<lparr>qsets := (qsets h)(qset \<mapsto> ?s1)\<rparr>"
        have r: "readAllQitemsFromQset_loop ?h1 qset alloc (i + 1) qall = Return (h', res, c)"
          using drain_skip [OF s lt Some q None] ret by simp
        have n: "nat (sint (qset_numOfQueues ?s1) - (i + 1)) = n"
          using Suc.prems(1) by simp
        have "queues_inv ?h1 Q ch"
          using queues_inv_cong [of ?h1 h Q ch] inv by simp
        from Suc.IH [OF n _ this r] show ?thesis by simp
      next
        case p: (Some p)
        note hit = drain_hit [OF s lt Some q p, of alloc qall]
        show ?thesis
        proof (cases "alloc i")
          case None
          with hit ret have "nodes h' = nodes h" "queues h' = queues h" by auto
          from queues_inv_cong [OF this] inv show ?thesis by auto
        next
          case (Some new)
          let ?s4 = "s\<lparr>qset_current := queue_next q,
                        qset_numOfItems := qset_numOfItems s - queue_numOfItems q\<rparr>"
          let ?h4 = "h\<lparr>qalls := (qalls h)(new \<mapsto>
                             \<lparr>qall_current = Some p, qall_start = Some p,
                              qall_itemSize = queue_itemSize q,
                              qall_numOfItems = queue_numOfItems q\<rparr>),
                           queues := (queues h)(a \<mapsto>
                             q\<lparr>queue_head := None, queue_tail := None,
                               queue_numOfItems := 0\<rparr>),
                           qsets := (qsets h)(qset \<mapsto> ?s4)\<rparr>"
          have inv4: "queues_inv ?h4 Q (ch(a := []))"
          proof (rule queues_inv_update [OF inv a])
            show "queue_wf ?h4 a []" by (rule wf_emptied [of ?h4 a q]) simp
          qed simp_all
          show ?thesis
          proof (cases "sint (queue_numOfItems q) \<noteq> 0")
            case True
            with hit ret Some have "h' = ?h4" by (simp add: Let_def)
            with inv4 show ?thesis by blast
          next
            case False
            with hit ret Some
            have r: "readAllQitemsFromQset_loop ?h4 qset alloc (i + 1) (Some new) =
                       Return (h', res, c)"
              by (simp add: Let_def)
            have n: "nat (sint (qset_numOfQueues ?s4) - (i + 1)) = n"
              using Suc.prems(1) by simp
            from Suc.IH [OF n _ inv4 r] show ?thesis by simp
          qed
        qed
      qed
    qed
  qed
qed

lemma inv_drain_set:
  assumes inv: "queues_inv h Q ch"
    and ret: "taosReadAllQitemsFromQset h qset alloc = Return (h', res, c)"
  shows "\<exists>ch'. queues_inv h' Q ch'"
proof -
  from ret obtain s where s: "qsets h qset = Some s"
    by (subst (asm) taosReadAllQitemsFromQset_def,
        subst (asm) readAllQitemsFromQset_loop.simps) (auto split: option.splits)
  from ret have "readAllQitemsFromQset_loop h qset alloc 0 None = Return (h', res, c)"
    by (simp add: taosReadAllQitemsFromQset_def)
  from inv_drain_loop [OF refl s inv this] show ?thesis .
qed

text \<open>
  Claim C9. ``Head is null iff tail is null iff count is 0'' is \<open>head_tail_count\<close>. It is
  a consequence of \<open>queues_inv\<close>, which holds in the empty heap, holds again when a queue
  is opened at a fresh address, and is preserved by every call that changes a queue:
  \<^verbatim>\<open>taosWriteQitem\<close> (with the node at a fresh address and the counter below
  \<^verbatim>\<open>INT32_MAX\<close>, beyond which the increment of a signed counter is undefined),
  \<^verbatim>\<open>taosReadQitem\<close>, \<^verbatim>\<open>taosReadAllQitems\<close>, \<^verbatim>\<open>taosReadQitemFromQset\<close> and
  \<^verbatim>\<open>taosReadAllQitemsFromQset\<close>. So every live queue satisfies \<open>head_tail_count\<close> after
  each of these calls. The three equivalences alone are not preserved by the code (a
  dequeue clears the tail only when the head becomes null, which is the right moment only
  if the counter is the length of the chain), which is why the invariant carries the
  chains.
\<close>

theorem queue_invariant:
  "queues_inv empty_heap [] ch0 \<and>
   (queues_inv h Q ch \<longrightarrow>
      (\<forall>a q. queues h a = Some q \<longrightarrow> head_tail_count q) \<and>
      (\<forall>a itemSize. a \<notin> set Q \<longrightarrow>
         queues_inv (fst (taosOpenQueue h itemSize (Some a))) (a # Q) (ch(a := []))) \<and>
      (\<forall>a item alloc h' c.
         taosWriteQitem h a item alloc = Return (h', c) \<and>
         (\<forall>p. alloc = Some p \<longrightarrow> nodes h p = None) \<and> length (ch a) < 2 ^ 31 - 1 \<longrightarrow>
         queues_inv h' Q (case alloc of None \<Rightarrow> ch | Some p \<Rightarrow> ch(a := ch a @ [p]))) \<and>
      (\<forall>a item h' item' c.
         taosReadQitem h a item = Return (h', item', c) \<longrightarrow>
         queues_inv h' Q (ch(a := tl (ch a)))) \<and>
      (\<forall>a alloc h' res c.
         taosReadAllQitems h a alloc = Return (h', res, c) \<longrightarrow>
         queues_inv h' Q (case res of None \<Rightarrow> ch | Some new \<Rightarrow> ch(a := []))) \<and>
      (\<forall>qset item h' item' c vs.
         taosReadQitemFromQset h qset item = Return (h', item', c, vs) \<longrightarrow>
         queues_inv h' Q (if c = 1 then ch(last vs := tl (ch (last vs))) else ch)) \<and>
      (\<forall>qset alloc h' res c.
         taosReadAllQitemsFromQset h qset alloc = Return (h', res, c) \<longrightarrow>
         (\<exists>ch'. queues_inv h' Q ch')))"
proof (intro conjI impI allI)
  show "queues_inv empty_heap [] ch0"
    by (simp add: queues_inv_def empty_heap_def)
next
  fix a q assume "queues_inv h Q ch" "queues h a = Some q"
  then show "head_tail_count q"
    using queue_wf_head_tail_count queues_inv_wf queues_inv_dom by blast
next
  fix a itemSize assume "queues_inv h Q ch" "a \<notin> set Q"
  then show "queues_inv (fst (taosOpenQueue h itemSize (Some a))) (a # Q) (ch(a := []))"
    by (rule inv_open)
next
  fix a item alloc h' c
  assume "queues_inv h Q ch"
    and "taosWriteQitem h a item alloc = Return (h', c) \<and>
         (\<forall>p. alloc = Some p \<longrightarrow> nodes h p = None) \<and> length (ch a) < 2 ^ 31 - 1"
  then show "queues_inv h' Q (case alloc of None \<Rightarrow> ch | Some p \<Rightarrow> ch(a := ch a @ [p]))"
    by (intro inv_write [of h Q ch a item alloc h' c]) auto
next
  fix a item h' item' c
  assume "queues_inv h Q ch" "taosReadQitem h a item = Return (h', item', c)"
  then show "queues_inv h' Q (ch(a := tl (ch a)))" by (rule inv_read)
next
  fix a alloc h' res c
  assume "queues_inv h Q ch" "taosReadAllQitems h a alloc = Return (h', res, c)"
  then show "queues_inv h' Q (case res of None \<Rightarrow> ch | Some new \<Rightarrow> ch(a := []))"
    by (rule inv_drain)
next
  fix qset item h' item' c vs
  assume "queues_inv h Q ch" "taosReadQitemFromQset h qset item = Return (h', item', c, vs)"
  then show "queues_inv h' Q (if c = 1 then ch(last vs := tl (ch (last vs))) else ch)"
    by (rule inv_poll)
next
  fix qset alloc h' res c
  assume "queues_inv h Q ch" "taosReadAllQitemsFromQset h qset alloc = Return (h', res, c)"
  then show "\<exists>ch'. queues_inv h' Q ch'" by (rule inv_drain_set)
qed

theorem queue_invariant_witness:
  "queues_inv example_heap [7] ((\<lambda>a. [])(7 := [10])) \<and>
   (\<exists>q. queues example_heap 7 = Some q \<and> head_tail_count q) \<and>
   (\<exists>h'. taosWriteQitem example_heap 7 [1, 1, 1, 1] (Some 12) = Return (h', 0) \<and>
         queues_inv h' [7] ((\<lambda>a. [])(7 := [10, 12]))) \<and>
   (\<exists>h' item'. taosReadQitem example_heap 7 [0, 0, 0, 0] = Return (h', item', 1) \<and>
         queues_inv h' [7] ((\<lambda>a. [])(7 := []))) \<and>
   (\<exists>h' item'. taosReadQitemFromQset example_heap 20 [0, 0, 0, 0] = Return (h', item', 1, [7]) \<and>
         queues_inv h' [7] ((\<lambda>a. [])(7 := [])))"
proof -
  let ?ch = "(\<lambda>a. [])(7 := [10 :: addr])"
  have inv: "queues_inv example_heap [7] ?ch"
    by (simp add: queues_inv_def queue_wf_def queue_linked_def example_heap_def)
  note inst = queue_invariant [of "\<lambda>a. []" example_heap "[7]" ?ch, THEN conjunct2, THEN mp, OF inv]
  note c2 = conjunct2
  have q: "queues example_heap 7 =
             Some \<lparr>queue_itemSize = 4, queue_numOfItems = 1, queue_head = Some 10,
                   queue_tail = Some 10, queue_next = None, queue_qset = Some 20\<rparr>"
    by (simp add: example_heap_def)
  from inst [THEN conjunct1, rule_format, OF q] q
  have p1: "\<exists>q. queues example_heap 7 = Some q \<and> head_tail_count q" by simp
  obtain h1 where w: "taosWriteQitem example_heap 7 [1, 1, 1, 1] (Some 12) = Return (h1, 0)"
    by (simp add: taosWriteQitem_def example_heap_def memcpy_def atomic_add_fetch_32_def Let_def)
  have "taosWriteQitem example_heap 7 [1, 1, 1, 1] (Some 12) = Return (h1, 0) \<and>
        (\<forall>p. Some 12 = Some p \<longrightarrow> nodes example_heap p = None) \<and>
        length (?ch 7) < 2 ^ 31 - 1"
    using w by (simp add: example_heap_def)
  from inst [THEN c2, THEN c2, THEN conjunct1, rule_format, OF this] w
  have p2: "\<exists>h'. taosWriteQitem example_heap 7 [1, 1, 1, 1] (Some 12) = Return (h', 0) \<and>
         queues_inv h' [7] ((\<lambda>a. [])(7 := [10, 12]))" by simp
  obtain h2 item2 where r: "taosReadQitem example_heap 7 [0, 0, 0, 0] = Return (h2, item2, 1)"
    by (simp add: taosReadQitem_def example_heap_def memcpy_def atomic_sub_fetch_32_def Let_def)
  from inst [THEN c2, THEN c2, THEN c2, THEN conjunct1, rule_format, OF this] r
  have p3: "\<exists>h' item'. taosReadQitem example_heap 7 [0, 0, 0, 0] = Return (h', item', 1) \<and>
         queues_inv h' [7] ((\<lambda>a. [])(7 := []))" by simp
  have "queue_ready example_heap (length [0, 0, 0, 0 :: byte]) 7"
    by (simp add: queue_ready_def example_heap_def)
  from poll_ready [of example_heap 20 _ 7, OF _ _ _ this]
  obtain h3 item3 where
    pl: "taosReadQitemFromQset example_heap 20 [0, 0, 0, 0] = Return (h3, item3, 1, [7])"
    by (auto simp: example_heap_def)
  from inst [THEN c2, THEN c2, THEN c2, THEN c2, THEN c2, THEN conjunct1, rule_format, OF this] pl
  have p4: "\<exists>h' item'. taosReadQitemFromQset example_heap 20 [0, 0, 0, 0] =
              Return (h', item', 1, [7]) \<and> queues_inv h' [7] ((\<lambda>a. [])(7 := []))" by simp
  from inv p1 p2 p3 p4 show ?thesis by blast
qed

subsection \<open>Closing a member below the head\<close>

text \<open>
  \<^verbatim>\<open>taosCloseQueue\<close> detaches through \<^verbatim>\<open>taosRemoveFromQset\<close>, so for a queue that is a
  member below the head of its set the call does not return either.
\<close>

lemma close_below_head_never_returns:
  assumes q: "queues h queue = Some q" and bound: "queue_qset q = Some qset"
    and s: "qsets h qset = Some s"
    and mem: "members (queues h) (qset_head s) (first # rest)"
    and below: "queue \<in> set rest" "queue \<noteq> first"
  shows "taosCloseQueue fuel h queue = OutOfFuel"
proof -
  let ?h1 = "h\<lparr>queues := (queues h)(queue \<mapsto> q\<lparr>queue_head := None\<rparr>)\<rparr>"
  define ms where "ms = first # rest"
  have "map_option queue_next (queues ?h1 b) = map_option queue_next (queues h b)" for b
    using q by simp
  then have "members (queues ?h1) (qset_head s) ms = members (queues h) (qset_head s) ms"
    by (intro members_cong)
  with mem have mem1: "members (queues ?h1) (qset_head s) (first # rest)"
    by (simp only: ms_def)
  have s1: "qsets ?h1 qset = Some s" using s by simp
  have "taosRemoveFromQset fuel ?h1 qset queue = OutOfFuel"
    using s1 mem1 below by (rule remove_below_head_never_returns)
  with q bound show ?thesis by (simp add: taosCloseQueue_def Let_def)
qed

subsection \<open>Allocation failures\<close>

lemma upto_nonempty_cong:
  "queues h' = queues h \<Longrightarrow> upto_nonempty h' w = upto_nonempty h w"
  by (induction w) (simp_all add: queue_empty_def)

lemma failed_drain_loop:
  assumes "nat (sint (qset_numOfQueues s) - i) = n"
    and "qsets h qset = Some s"
    and "\<forall>a \<in> set (scan_order (queues h) (qset_head s) (qset_current s) n). queues h a \<noteq> None"
  shows "readAllQitemsFromQset_loop h qset calloc_fails i None =
           Return (failed_drain h qset s n)"
  using assms
proof (induction n arbitrary: h s i)
  case 0
  then have "\<not> i < sint (qset_numOfQueues s)" by simp
  from drain_exit [OF "0.prems"(2) this]
  have "readAllQitemsFromQset_loop h qset calloc_fails i None = Return (h, None, 0)" .
  moreover have "s\<lparr>qset_current := qset_current s\<rparr> = s" by simp
  then have "failed_drain h qset s 0 = (h, None, 0)"
    using "0.prems"(2) by (simp add: failed_drain_def fun_upd_idem)
  ultimately show ?case by simp
next
  case (Suc n)
  then have lt: "i < sint (qset_numOfQueues s)" by simp
  note s = Suc.prems(2) and live = Suc.prems(3)
  show ?case
  proof (cases "if qset_current s = None then qset_head s else qset_current s")
    case None
    then have "qset_current s = None" "qset_head s = None" by (auto split: if_splits)
    from drain_no_queue [OF s lt this]
    have "readAllQitemsFromQset_loop h qset calloc_fails i None = Return (h, None, 0)" .
    moreover have "scan_order (queues h) (qset_head s) (qset_current s) (Suc n) = []"
      using None by simp
    moreover have "s\<lparr>qset_current := qset_current s\<rparr> = s" by simp
    ultimately show ?thesis
      using s by (simp add: failed_drain_def fun_upd_idem)
  next
    case (Some a)
    have "a \<in> set (scan_order (queues h) (qset_head s) (qset_current s) (Suc n))"
      using Some by (simp split: option.splits)
    with live obtain q where q: "queues h a = Some q" by blast
    let ?w1 = "scan_order (queues h) (qset_head s) (queue_next q) n"
    have w: "scan_order (queues h) (qset_head s) (qset_current s) (Suc n) = a # ?w1"
      using Some q by simp
    show ?thesis
    proof (cases "queue_head q")
      case None
      let ?s1 = "s\<lparr>qset_current := queue_next q\<rparr>"
      let ?h1 = "h\<lparr>qsets := (qsets h)(qset \<mapsto> ?s1)\<rparr>"
      have ea: "queue_empty h a" using q None by (simp add: queue_empty_def)
      have step: "readAllQitemsFromQset_loop h qset calloc_fails i None =
                    readAllQitemsFromQset_loop ?h1 qset calloc_fails (i + 1) None"
        using drain_skip [OF s lt Some q None] .
      have n: "nat (sint (qset_numOfQueues ?s1) - (i + 1)) = n"
        using Suc.prems(1) by simp
      have s1: "qsets ?h1 qset = Some ?s1" by simp
      have "\<forall>b \<in> set (a # ?w1). queues h b \<noteq> None"
        using live unfolding w .
      then have live1:
        "\<forall>b \<in> set (scan_order (queues ?h1) (qset_head ?s1) (qset_current ?s1) n).
           queues ?h1 b \<noteq> None"
        by simp
      have up: "upto_nonempty ?h1 ?w1 = upto_nonempty h ?w1"
        by (rule upto_nonempty_cong) simp
      have qe: "queue_empty ?h1 b = queue_empty h b" for b
        by (simp add: queue_empty_def)
      have "failed_drain ?h1 qset ?s1 n = failed_drain h qset s (Suc n)"
        unfolding failed_drain_def w using ea q up qe
        by (simp add: Let_def)
      with Suc.IH [OF n s1 live1] step show ?thesis by simp
    next
      case p: (Some p)
      have na: "\<not> queue_empty h a" using q p by (simp add: queue_empty_def)
      have "readAllQitemsFromQset_loop h qset calloc_fails i None =
              Return (h\<lparr>qsets := (qsets h)(qset \<mapsto> s\<lparr>qset_current := queue_next q\<rparr>),
                        terrno := TSDB_CODE_NO_RESOURCE\<rparr>, None, - 1)"
        using drain_hit [OF s lt Some q p, of calloc_fails None]
        by (simp add: calloc_fails_def)
      moreover have "failed_drain h qset s (Suc n) =
              (h\<lparr>qsets := (qsets h)(qset \<mapsto> s\<lparr>qset_current := queue_next q\<rparr>),
                 terrno := TSDB_CODE_NO_RESOURCE\<rparr>, None, - 1)"
        unfolding failed_drain_def w using na q by (auto simp: Let_def)
      ultimately show ?thesis by simp
    qed
  qed
qed

text \<open>
  Claim C8 says that every allocation failure is reported and has no observable side
  effect. For \<^verbatim>\<open>taosReadAllQitemsFromQset\<close> this is not so. On \<open>two_queue_heap\<close> the cursor
  of set 20 is \<^verbatim>\<open>NULL\<close>. The call visits queue 8, moves the cursor to queue 7, finds an
  item in queue 8, and only then calls \<^verbatim>\<open>calloc\<close>. When that fails the call returns \<open>-1\<close>
  and no view, and the cursor is at queue 7: the next poll starts at another queue than
  it would have started at without the failed call.
\<close>

theorem set_drain_failure_moves_cursor:
  "taosReadAllQitemsFromQset two_queue_heap 20 calloc_fails =
     Return (two_queue_heap\<lparr>
        qsets := [20 \<mapsto> \<lparr>qset_head = Some 8, qset_current = Some 7, qset_numOfQueues = 2,
                          qset_numOfItems = 2\<rparr>],
        terrno := TSDB_CODE_NO_RESOURCE\<rparr>, None, - 1) \<and>
   qsets two_queue_heap 20 =
     Some \<lparr>qset_head = Some 8, qset_current = None, qset_numOfQueues = 2,
           qset_numOfItems = 2\<rparr>"
  by (simp add: taosReadAllQitemsFromQset_def readAllQitemsFromQset_loop.simps
        two_queue_heap_def calloc_fails_def Let_def)

text \<open>
  Claim C8, amended. Every allocation failure is reported: the two constructors return
  \<^verbatim>\<open>NULL\<close>, \<^verbatim>\<open>taosWriteQitem\<close> returns \<open>-1\<close>, \<^verbatim>\<open>taosReadAllQitems\<close> on a queue with items and
  \<^verbatim>\<open>taosReadAllQitemsFromQset\<close> on a set with a non-empty queue in its scan order return
  \<open>-1\<close> and no view, and \<^verbatim>\<open>terrno\<close> is set. In the first four calls \<^verbatim>\<open>terrno\<close> is the only
  change to the heap: nodes, queues (chain and counter) and sets (item count) are the
  same. In \<^verbatim>\<open>taosReadAllQitemsFromQset\<close> the cursor of the set has moved as well, behind
  the queues that were visited (the scan order up to the first queue that is not empty);
  nodes, queues, batch views and the head, queue count and item count of the set are the
  same. The call returns whenever the queues of the scan order are live.
\<close>

theorem allocation_failure_effects:
  "(queues h queue \<noteq> None \<longrightarrow>
      taosWriteQitem h queue item None = Return (h\<lparr>terrno := TSDB_CODE_NO_RESOURCE\<rparr>, - 1)) \<and>
   (queues h queue = Some q \<and> queue_head q \<noteq> None \<longrightarrow>
      taosReadAllQitems h queue None = Return (h\<lparr>terrno := TSDB_CODE_NO_RESOURCE\<rparr>, None, - 1)) \<and>
   taosOpenQueue h itemSize None = (h\<lparr>terrno := TSDB_CODE_NO_RESOURCE\<rparr>, None) \<and>
   taosOpenQset h None = (h\<lparr>terrno := TSDB_CODE_NO_RESOURCE\<rparr>, None) \<and>
   (qsets h qset = Some s \<and>
    (\<forall>a \<in> set (scan_order (queues h) (qset_head s) (qset_current s)
                   (nat (sint (qset_numOfQueues s)))). queues h a \<noteq> None) \<longrightarrow>
      taosReadAllQitemsFromQset h qset calloc_fails =
        Return (failed_drain h qset s (nat (sint (qset_numOfQueues s)))) \<and>
      (\<forall>h' res c. failed_drain h qset s (nat (sint (qset_numOfQueues s))) = (h', res, c) \<longrightarrow>
         nodes h' = nodes h \<and> queues h' = queues h \<and> qalls h' = qalls h \<and> res = None \<and>
         (\<exists>s'. qsets h' = (qsets h)(qset \<mapsto> s') \<and> qset_head s' = qset_head s \<and>
               qset_numOfQueues s' = qset_numOfQueues s \<and>
               qset_numOfItems s' = qset_numOfItems s)))"
proof -
  have p1: "queues h queue \<noteq> None \<longrightarrow>
      taosWriteQitem h queue item None = Return (h\<lparr>terrno := TSDB_CODE_NO_RESOURCE\<rparr>, - 1)"
    by (auto simp: taosWriteQitem_def)
  have p2: "queues h queue = Some q \<and> queue_head q \<noteq> None \<longrightarrow>
      taosReadAllQitems h queue None = Return (h\<lparr>terrno := TSDB_CODE_NO_RESOURCE\<rparr>, None, - 1)"
    by (auto simp: taosReadAllQitems_def)
  have p3: "taosOpenQueue h itemSize None = (h\<lparr>terrno := TSDB_CODE_NO_RESOURCE\<rparr>, None)"
    by (simp add: taosOpenQueue_def)
  have p4: "taosOpenQset h None = (h\<lparr>terrno := TSDB_CODE_NO_RESOURCE\<rparr>, None)"
    by (simp add: taosOpenQset_def)
  have p5: "taosReadAllQitemsFromQset h qset calloc_fails =
        Return (failed_drain h qset s (nat (sint (qset_numOfQueues s))))"
    if "qsets h qset = Some s \<and>
      (\<forall>a \<in> set (scan_order (queues h) (qset_head s) (qset_current s)
                     (nat (sint (qset_numOfQueues s)))). queues h a \<noteq> None)"
    using failed_drain_loop [of s 0 _ h qset] that
    by (simp add: taosReadAllQitemsFromQset_def)
  have p6: "nodes h' = nodes h \<and> queues h' = queues h \<and> qalls h' = qalls h \<and> res = None \<and>
         (\<exists>s'. qsets h' = (qsets h)(qset \<mapsto> s') \<and> qset_head s' = qset_head s \<and>
               qset_numOfQueues s' = qset_numOfQueues s \<and>
               qset_numOfItems s' = qset_numOfItems s)"
    if "failed_drain h qset s (nat (sint (qset_numOfQueues s))) = (h', res, c)" for h' res c
    using that by (auto simp: failed_drain_def Let_def)
  from p1 p2 p3 p4 p5 p6 show ?thesis by blast
qed

theorem allocation_failure_effects_witness:
  "taosWriteQitem two_queue_heap 7 [1, 1, 1, 1] None =
     Return (two_queue_heap\<lparr>terrno := TSDB_CODE_NO_RESOURCE\<rparr>, - 1) \<and>
   taosReadAllQitems two_queue_heap 7 None =
     Return (two_queue_heap\<lparr>terrno := TSDB_CODE_NO_RESOURCE\<rparr>, None, - 1) \<and>
   taosReadAllQitemsFromQset two_queue_heap 20 calloc_fails =
     Return (two_queue_heap\<lparr>
        qsets := [20 \<mapsto> \<lparr>qset_head = Some 8, qset_current = Some 7, qset_numOfQueues = 2,
                          qset_numOfItems = 2\<rparr>],
        terrno := TSDB_CODE_NO_RESOURCE\<rparr>, None, - 1)"
proof -
  let ?q = "\<lparr>queue_itemSize = 4, queue_numOfItems = 1, queue_head = Some 10,
            queue_tail = Some 10, queue_next = None, queue_qset = Some 20\<rparr>"
  let ?s = "\<lparr>qset_head = Some 8, qset_current = None, qset_numOfQueues = 2,
            qset_numOfItems = 2\<rparr>"
  note inst = allocation_failure_effects
      [of two_queue_heap 7 "[1, 1, 1, 1]" ?q 0 20 ?s]
  have q: "queues two_queue_heap 7 = Some ?q" by (simp add: two_queue_heap_def)
  have s: "qsets two_queue_heap 20 = Some ?s" by (simp add: two_queue_heap_def)
  have order: "scan_order (queues two_queue_heap) (qset_head ?s) (qset_current ?s)
                 (nat (sint (qset_numOfQueues ?s))) = [8, 7]"
    by (simp add: two_queue_heap_def numeral_2_eq_2)
  have p1: "taosWriteQitem two_queue_heap 7 [1, 1, 1, 1] None =
     Return (two_queue_heap\<lparr>terrno := TSDB_CODE_NO_RESOURCE\<rparr>, - 1)"
    using inst [THEN conjunct1] q by simp
  have p2: "taosReadAllQitems two_queue_heap 7 None =
     Return (two_queue_heap\<lparr>terrno := TSDB_CODE_NO_RESOURCE\<rparr>, None, - 1)"
    using inst [THEN conjunct2, THEN conjunct1] q by simp
  have live: "qsets two_queue_heap 20 = Some ?s \<and>
    (\<forall>a \<in> set (scan_order (queues two_queue_heap) (qset_head ?s) (qset_current ?s)
                   (nat (sint (qset_numOfQueues ?s)))). queues two_queue_heap a \<noteq> None)"
    unfolding order using s by (simp add: two_queue_heap_def)
  have "taosReadAllQitemsFromQset two_queue_heap 20 calloc_fails =
        Return (failed_drain two_queue_heap 20 ?s (nat (sint (qset_numOfQueues ?s))))"
    using inst [THEN conjunct2, THEN conjunct2, THEN conjunct2, THEN conjunct2, THEN mp,
                OF live, THEN conjunct1] .
  moreover have "failed_drain two_queue_heap 20 ?s (nat (sint (qset_numOfQueues ?s))) =
     (two_queue_heap\<lparr>
        qsets := [20 \<mapsto> \<lparr>qset_head = Some 8, qset_current = Some 7, qset_numOfQueues = 2,
                          qset_numOfItems = 2\<rparr>],
        terrno := TSDB_CODE_NO_RESOURCE\<rparr>, None, - 1)"
    unfolding failed_drain_def order
    by (simp add: two_queue_heap_def queue_empty_def Let_def)
  ultimately show ?thesis using p1 p2 by simp
qed

end
